theory Spec2Isabelle
  imports Main "HOL-Library.Sublist" "HOL-Library.Char_ord"
begin

section \<open>Text primitives of the host language\<close>

text \<open>
  The extractor of \<^verbatim>\<open>sec_final.py\<close> works on Python \<^verbatim>\<open>str\<close> values. They are modelled as
  HOL strings, one \<^typ>\<open>char\<close> per code point, for text in the ASCII range: the case
  mapping, the whitespace class and the line boundaries below are Python's, restricted to
  the code points below 128. Integers are Python's unbounded integers (\<^typ>\<open>int\<close>).
\<close>

definition is_upper :: "char \<Rightarrow> bool" where
  "is_upper c \<longleftrightarrow> CHR ''A'' \<le> c \<and> c \<le> CHR ''Z''"

definition is_lower :: "char \<Rightarrow> bool" where
  "is_lower c \<longleftrightarrow> CHR ''a'' \<le> c \<and> c \<le> CHR ''z''"

definition is_digit :: "char \<Rightarrow> bool" where
  "is_digit c \<longleftrightarrow> CHR ''0'' \<le> c \<and> c \<le> CHR ''9''"

definition is_alnum :: "char \<Rightarrow> bool" where
  "is_alnum c \<longleftrightarrow> is_lower c \<or> is_upper c \<or> is_digit c"

text \<open>\<^verbatim>\<open>str.isspace\<close> on one character; the same set is what \<^verbatim>\<open>str.strip()\<close> removes and
  what \<^verbatim>\<open>\s\<close> matches.\<close>

definition isspace :: "char \<Rightarrow> bool" where
  "isspace c \<longleftrightarrow> c \<in> set [CHR 0x09, CHR 0x0A, CHR 0x0B, CHR 0x0C, CHR 0x0D,
                           CHR 0x1C, CHR 0x1D, CHR 0x1E, CHR 0x1F, CHR 0x20]"

definition lower_char :: "char \<Rightarrow> char" where
  "lower_char c = (if is_upper c then char_of (of_char c + (32::nat)) else c)"

definition upper_char :: "char \<Rightarrow> char" where
  "upper_char c = (if is_lower c then char_of (of_char c - (32::nat)) else c)"

text \<open>\<^verbatim>\<open>s.lower()\<close>\<close>

definition lower :: "string \<Rightarrow> string" where
  "lower s = map lower_char s"

text \<open>\<^verbatim>\<open>s.strip()\<close>: leading and trailing whitespace removed.\<close>

definition lstrip :: "string \<Rightarrow> string" where
  "lstrip s = dropWhile isspace s"

definition rstrip :: "string \<Rightarrow> string" where
  "rstrip s = rev (dropWhile isspace (rev s))"

definition strip :: "string \<Rightarrow> string" where
  "strip s = rstrip (lstrip s)"

text \<open>\<^verbatim>\<open>sub in s\<close> is \<^term>\<open>sublist sub s\<close>. \<^verbatim>\<open>s.find(sub)\<close> is the lowest index at which
  \<^verbatim>\<open>sub\<close> starts in \<^verbatim>\<open>s\<close>, and \<^verbatim>\<open>-1\<close> when there is none.\<close>

fun find_from :: "string \<Rightarrow> string \<Rightarrow> nat \<Rightarrow> int" where
  "find_from sub [] i = (if sub = [] then int i else - 1)"
| "find_from sub (c # cs) i =
     (if prefix sub (c # cs) then int i else find_from sub cs (Suc i))"

definition str_find :: "string \<Rightarrow> string \<Rightarrow> int" where
  "str_find s sub = find_from sub s 0"

text \<open>\<^verbatim>\<open>s[a:b]\<close> with Python's treatment of negative and out-of-range bounds.\<close>

definition clamp_index :: "nat \<Rightarrow> int \<Rightarrow> nat" where
  "clamp_index n i = (if i < 0 then nat (max 0 (int n + i)) else min n (nat i))"

definition py_slice :: "string \<Rightarrow> int \<Rightarrow> int \<Rightarrow> string" where
  "py_slice s a b =
     (let lo = clamp_index (length s) a; hi = clamp_index (length s) b
      in take (hi - lo) (drop lo s))"

text \<open>\<^verbatim>\<open>s[a:]\<close>\<close>

definition py_slice_from :: "string \<Rightarrow> int \<Rightarrow> string" where
  "py_slice_from s a = drop (clamp_index (length s) a) s"


section \<open>Configuration\<close>



definition PRODUCT_KEYWORDS :: "string list" where
  "PRODUCT_KEYWORDS =
     [''new product'', ''launch'', ''announce'', ''introduce'',
      ''unveil'', ''release'', ''innovation'', ''technology'']"


section \<open>MentionDetector: \<^verbatim>\<open>contains_product_info\<close>\<close>

text \<open>
  The loop over the configured keywords, with the keyword list as a parameter. The first
  keyword of the list that occurs in the lower-cased text ends the loop; the window is cut
  from the original text around the first occurrence of that keyword.
\<close>

fun scan_keywords :: "string list \<Rightarrow> string \<Rightarrow> bool \<times> string \<times> string" where
  "scan_keywords [] text = (False, [], [])"
| "scan_keywords (keyword # rest) text =
     (let text_lower = lower text in
      if sublist keyword text_lower then
        (let keyword_index = str_find text_lower keyword;
             start = max 0 (keyword_index - 100);
             end = min (int (length text)) (keyword_index + 200);
             context = py_slice text start end
         in (True, context, keyword))
      else scan_keywords rest text)"

definition contains_product_info :: "string \<Rightarrow> bool \<times> string \<times> string" where
  "contains_product_info text = scan_keywords PRODUCT_KEYWORDS text"



section \<open>Regular expressions as \<^verbatim>\<open>re\<close> runs them\<close>

text \<open>
  \<^verbatim>\<open>extract_product_name\<close> compiles three patterns and calls \<^verbatim>\<open>search\<close> on each. The
  fragment of the pattern language they use is embedded as a datatype: single-character
  atoms (an escaped literal, a bracket set, a negated set, \<^verbatim>\<open>\s\<close>), sequence, the
  quantifiers \<^verbatim>\<open>*\<close>, \<^verbatim>\<open>+\<close> and \<^verbatim>\<open>*?\<close> on an atom, the greedy counted repeat \<^verbatim>\<open>{lo,hi}\<close>
  of a non-capturing group, and the capturing group (each pattern has exactly one).
\<close>

datatype item = Ch char | Rng char char

datatype atom = Lit char | In "item list" | NotIn "item list" | Space

datatype regex =
    Eps
  | Atom atom
  | Seq regex regex
  | Many atom
  | Many1 atom
  | Few atom
  | Rep nat nat regex
  | Group regex

fun in_item :: "item \<Rightarrow> char \<Rightarrow> bool" where
  "in_item (Ch c) x \<longleftrightarrow> x = c"
| "in_item (Rng lo hi) x \<longleftrightarrow> lo \<le> x \<and> x \<le> hi"

text \<open>Under \<^verbatim>\<open>re.IGNORECASE\<close> (\<open>ic\<close>) a set holds a character when it holds the character
  itself or its other case; a literal is compared after lower-casing.\<close>

definition in_items :: "bool \<Rightarrow> item list \<Rightarrow> char \<Rightarrow> bool" where
  "in_items ic items x \<longleftrightarrow>
     (\<exists>it \<in> set items. in_item it x
        \<or> (ic \<and> (in_item it (lower_char x) \<or> in_item it (upper_char x))))"

fun atom_match :: "bool \<Rightarrow> atom \<Rightarrow> char \<Rightarrow> bool" where
  "atom_match ic (Lit c) x \<longleftrightarrow> (if ic then lower_char x = lower_char c else x = c)"
| "atom_match ic (In items) x \<longleftrightarrow> in_items ic items x"
| "atom_match ic (NotIn items) x \<longleftrightarrow> \<not> in_items ic items x"
| "atom_match ic Space x \<longleftrightarrow> isspace x"

text \<open>
  A way to match at the start of a subject is the text consumed, the text of group 1 (if
  the group took part) and the rest of the subject. \<open>ways\<close> lists all ways in the order
  in which the backtracking matcher tries them, so its first element is the match that
  \<^verbatim>\<open>re\<close> reports: a greedy quantifier offers the longest run first, a lazy one the
  shortest, and in a sequence the alternatives of the left part are the outer loop.
\<close>

type_synonym way = "string \<times> string option \<times> string"

definition run_length :: "bool \<Rightarrow> atom \<Rightarrow> string \<Rightarrow> nat" where
  "run_length ic a s = length (takeWhile (atom_match ic a) s)"

definition split_at :: "string \<Rightarrow> nat \<Rightarrow> way" where
  "split_at s n = (take n s, None, drop n s)"

definition after :: "string \<Rightarrow> string option \<Rightarrow> way \<Rightarrow> way" where
  "after c1 g1 w =
     (case w of (c2, g2, s2) \<Rightarrow> (c1 @ c2, (case g2 of None \<Rightarrow> g1 | Some g \<Rightarrow> Some g), s2))"

fun rsize :: "regex \<Rightarrow> nat" where
  "rsize Eps = 0"
| "rsize (Atom a) = 0"
| "rsize (Seq r1 r2) = Suc (rsize r1 + rsize r2)"
| "rsize (Many a) = 0"
| "rsize (Many1 a) = 0"
| "rsize (Few a) = 0"
| "rsize (Rep lo hi r) = Suc (rsize r + hi)"
| "rsize (Group r) = Suc (rsize r)"

function ways :: "bool \<Rightarrow> regex \<Rightarrow> string \<Rightarrow> way list" where
  "ways ic Eps s = [([], None, s)]"
| "ways ic (Atom a) [] = []"
| "ways ic (Atom a) (x # t) = (if atom_match ic a x then [([x], None, t)] else [])"
| "ways ic (Seq r1 r2) s =
     concat (map (\<lambda>(c1, g1, s1). map (after c1 g1) (ways ic r2 s1)) (ways ic r1 s))"
| "ways ic (Many a) s = map (split_at s) (rev [0..<Suc (run_length ic a s)])"
| "ways ic (Many1 a) s = map (split_at s) (rev [1..<Suc (run_length ic a s)])"
| "ways ic (Few a) s = map (split_at s) [0..<Suc (run_length ic a s)]"
| "ways ic (Rep lo 0 r) s = (if lo = 0 then [([], None, s)] else [])"
| "ways ic (Rep lo (Suc hi) r) s =
     concat (map (\<lambda>(c1, g1, s1). map (after c1 g1) (ways ic (Rep (lo - 1) hi r) s1))
                 (ways ic r s))
     @ (if lo = 0 then [([], None, s)] else [])"
| "ways ic (Group r) s = map (\<lambda>(c, g, s'). (c, Some c, s')) (ways ic r s)"
  by pat_completeness auto
termination
  by (relation "measure (\<lambda>(ic, r, s). rsize r)") auto

text \<open>\<^verbatim>\<open>pattern.search(s)\<close>: the first way at the leftmost start position that has one;
  the start positions run from 0 to \<^verbatim>\<open>len(s)\<close>.\<close>

fun search :: "bool \<Rightarrow> regex \<Rightarrow> string \<Rightarrow> way option" where
  "search ic r [] = (case ways ic r [] of [] \<Rightarrow> None | w # _ \<Rightarrow> Some w)"
| "search ic r (x # t) = (case ways ic r (x # t) of [] \<Rightarrow> search ic r t | w # _ \<Rightarrow> Some w)"

text \<open>\<^verbatim>\<open>match.group(1)\<close>. The group takes part in every match of the three patterns
  below (it is not under a quantifier), so the second case does not arise.\<close>

fun group1 :: "way \<Rightarrow> string" where
  "group1 (c, Some g, s) = g"
| "group1 (c, None, s) = []"

text \<open>\<^verbatim>\<open>re.escape(keyword)\<close> inside a pattern: the keyword, character by character.\<close>

fun lits :: "string \<Rightarrow> regex" where
  "lits [] = Eps"
| "lits (c # cs) = Seq (Atom (Lit c)) (lits cs)"

fun seqs :: "regex list \<Rightarrow> regex" where
  "seqs [] = Eps"
| "seqs [r] = r"
| "seqs (r # rs) = Seq r (seqs rs)"

definition dquote :: char where
  "dquote = CHR 0x22"

definition upper_set :: "item list" where
  "upper_set = [Rng CHR ''A'' CHR ''Z'']"

definition alnum_set :: "item list" where
  "alnum_set = [Rng CHR ''a'' CHR ''z'', Rng CHR ''A'' CHR ''Z'', Rng CHR ''0'' CHR ''9'']"


section \<open>ProductNameExtractor: \<^verbatim>\<open>extract_product_name\<close>\<close>

text \<open>\<^verbatim>\<open>keyword[^"]*"([^"]+)"\<close>, compiled with \<^verbatim>\<open>re.IGNORECASE\<close>\<close>

definition quote_pattern :: "string \<Rightarrow> regex" where
  "quote_pattern keyword =
     seqs [lits keyword, Many (NotIn [Ch dquote]), Atom (Lit dquote),
           Group (Many1 (NotIn [Ch dquote])), Atom (Lit dquote)]"

text \<open>\<^verbatim>\<open>([A-Z][a-zA-Z0-9]*(?:\s+[A-Z][a-zA-Z0-9]*){0,5})\<close>, case-sensitive\<close>

definition cap_words_pattern :: regex where
  "cap_words_pattern =
     Group (seqs [Atom (In upper_set), Many (In alnum_set),
                  Rep 0 5 (seqs [Many1 Space, Atom (In upper_set), Many (In alnum_set)])])"

text \<open>\<^verbatim>\<open>keyword[^.]*?the\s+([A-Z][a-zA-Z0-9]*(?:\s+[a-zA-Z0-9]+){0,4})\<close>, compiled with
  \<^verbatim>\<open>re.IGNORECASE\<close>\<close>

definition the_pattern :: "string \<Rightarrow> regex" where
  "the_pattern keyword =
     seqs [lits keyword, Few (NotIn [Ch CHR ''.'']), lits ''the'', Many1 Space,
           Group (seqs [Atom (In upper_set), Many (In alnum_set),
                        Rep 0 4 (seqs [Many1 Space, Many1 (In alnum_set)])])]"

text \<open>The three searches of the function, each on the text it is given.\<close>

definition quote_match :: "string \<Rightarrow> string \<Rightarrow> way option" where
  "quote_match context keyword = search True (quote_pattern keyword) context"

definition words_after :: "string \<Rightarrow> string \<Rightarrow> string" where
  "words_after context keyword =
     strip (py_slice_from context (str_find (lower context) keyword + int (length keyword)))"

definition cap_words_match :: "string \<Rightarrow> string \<Rightarrow> way option" where
  "cap_words_match context keyword = search False cap_words_pattern (words_after context keyword)"

definition the_match :: "string \<Rightarrow> string \<Rightarrow> way option" where
  "the_match context keyword = search True (the_pattern keyword) context"

definition extract_product_name :: "string \<Rightarrow> string \<Rightarrow> string" where
  "extract_product_name context keyword =
     (case quote_match context keyword of
        Some m \<Rightarrow> strip (group1 m)
      | None \<Rightarrow>
          (case cap_words_match context keyword of
             Some m \<Rightarrow> strip (group1 m)
           | None \<Rightarrow>
               (case the_match context keyword of
                  Some m \<Rightarrow> strip (group1 m)
                | None \<Rightarrow> ''New Product'')))"

text \<open>A capitalized word in the sense of the second pattern: an upper-case letter followed
  by letters and digits.\<close>

definition cap_word :: "string \<Rightarrow> bool" where
  "cap_word v \<longleftrightarrow> (case v of [] \<Rightarrow> False | x # t \<Rightarrow> is_upper x \<and> list_all is_alnum t)"


section \<open>Failures and responses\<close>

text \<open>
  The exceptions that the retrieval steps can raise on a decoded payload, as values. Every
  step catches them at its own boundary and returns its empty value.
\<close>

datatype py_error = KeyError | IndexError

text \<open>\<^verbatim>\<open>xs[i]\<close> for an index that \<^verbatim>\<open>enumerate\<close> produced, and \<^verbatim>\<open>d[k]\<close>.\<close>

definition list_item :: "'a list \<Rightarrow> nat \<Rightarrow> py_error + 'a" where
  "list_item xs i = (if i < length xs then Inr (xs ! i) else Inl IndexError)"

definition dict_item :: "('k \<rightharpoonup> 'v) \<Rightarrow> 'k \<Rightarrow> py_error + 'v" where
  "dict_item d k = (case d k of None \<Rightarrow> Inl KeyError | Some v \<Rightarrow> Inr v)"

text \<open>
  What \<^verbatim>\<open>requests.get\<close> followed by \<^verbatim>\<open>response.json()\<close> can give: the call raises, or
  it returns a status code and a body that decodes (\<open>Some\<close>) or does not (\<open>None\<close>).
\<close>

datatype 'a response = Raised | Response int "'a option"


section \<open>TickerResolver: \<^verbatim>\<open>get_company_tickers\<close>\<close>

text \<open>\<^verbatim>\<open>str(n)\<close> for an integer and \<^verbatim>\<open>s.zfill(width)\<close>.\<close>

definition digit_char :: "nat \<Rightarrow> char" where
  "digit_char d = ''0123456789'' ! d"

fun str_nat :: "nat \<Rightarrow> string" where
  "str_nat n = (if n < 10 then [digit_char n] else str_nat (n div 10) @ [digit_char (n mod 10)])"

declare str_nat.simps [simp del]

definition str_int :: "int \<Rightarrow> string" where
  "str_int i = (if i < 0 then CHR ''-'' # str_nat (nat (- i)) else str_nat (nat i))"

definition zfill :: "string \<Rightarrow> nat \<Rightarrow> string" where
  "zfill s width =
     (if width \<le> length s then s
      else (case s of
              c # cs \<Rightarrow>
                if c = CHR ''+'' \<or> c = CHR ''-''
                then c # replicate (width - length s) CHR ''0'' @ cs
                else replicate (width - length s) CHR ''0'' @ s
            | [] \<Rightarrow> replicate width CHR ''0''))"

text \<open>One entry of the ticker directory; a field is \<open>None\<close> when the key is missing.\<close>

record company =
  cik_str :: "int option"
  ticker :: "string option"

fun convert_tickers :: "company list \<Rightarrow> (string \<rightharpoonup> string) \<Rightarrow> py_error + (string \<rightharpoonup> string)" where
  "convert_tickers [] tickers_dict = Inr tickers_dict"
| "convert_tickers (company # rest) tickers_dict =
     (case cik_str company of
        None \<Rightarrow> Inl KeyError
      | Some n \<Rightarrow>
          (case ticker company of
             None \<Rightarrow> Inl KeyError
           | Some t \<Rightarrow> convert_tickers rest (tickers_dict(t \<mapsto> zfill (str_int n) 10))))"

definition get_company_tickers :: "company list response \<Rightarrow> (string \<rightharpoonup> string)" where
  "get_company_tickers resp =
     (case resp of
        Raised \<Rightarrow> Map.empty
      | Response status_code body \<Rightarrow>
          if status_code \<noteq> 200 then Map.empty
          else (case body of
                  None \<Rightarrow> Map.empty
                | Some tickers_data \<Rightarrow>
                    (case convert_tickers tickers_data Map.empty of
                       Inl e \<Rightarrow> Map.empty
                     | Inr tickers_dict \<Rightarrow> tickers_dict)))"


text \<open>What the verification shows of an entry \<open>t \<mapsto> ident\<close> of the mapping built from
  \<open>tickers_data\<close>.\<close>

definition ident_ok :: "company list \<Rightarrow> string \<Rightarrow> string \<Rightarrow> bool" where
  "ident_ok tickers_data t ident \<longleftrightarrow>
     length ident = 10 \<and> (\<forall>ch \<in> set ident. is_digit ch)
     \<and> (\<exists>c \<in> set tickers_data. \<exists>n. ticker c = Some t \<and> cik_str c = Some (int n)
           \<and> ident = replicate (10 - length (str_nat n)) CHR ''0'' @ str_nat n)"


section \<open>FilingLister: \<^verbatim>\<open>get_recent_filings\<close>\<close>

record filing =
  accessionNumber :: string
  filingDate :: string
  indexUrl :: string
  docUrl :: string

text \<open>The object \<^verbatim>\<open>data['filings']['recent']\<close>: parallel arrays under their keys.\<close>

type_synonym recent = "string \<rightharpoonup> string list"

definition archive_url :: string where
  "archive_url = ''https://www.sec.gov/Archives/edgar/data/''"

definition make_filing :: "string \<Rightarrow> string \<Rightarrow> string \<Rightarrow> string \<Rightarrow> filing" where
  "make_filing cik accession_number filing_date primary_doc =
     (let acc_no_without_dashes = filter (\<lambda>c. c \<noteq> CHR ''-'') accession_number;
          index_url = archive_url @ cik @ ''/'' @ acc_no_without_dashes @ ''/''
                        @ accession_number @ ''-index.htm'';
          doc_url = (if primary_doc \<noteq> []
                     then archive_url @ cik @ ''/'' @ acc_no_without_dashes @ ''/'' @ primary_doc
                     else [])
      in \<lparr>accessionNumber = accession_number, filingDate = filing_date,
          indexUrl = index_url, docUrl = doc_url\<rparr>)"

text \<open>The three reads of one matching position, in the order of the source.\<close>

definition read_filing :: "string \<Rightarrow> recent \<Rightarrow> nat \<Rightarrow> py_error + filing" where
  "read_filing cik recent_filings i =
     (case dict_item recent_filings ''accessionNumber'' of
        Inl e \<Rightarrow> Inl e
      | Inr accs \<Rightarrow>
     (case list_item accs i of
        Inl e \<Rightarrow> Inl e
      | Inr accession_number \<Rightarrow>
     (case dict_item recent_filings ''filingDate'' of
        Inl e \<Rightarrow> Inl e
      | Inr dates \<Rightarrow>
     (case list_item dates i of
        Inl e \<Rightarrow> Inl e
      | Inr filing_date \<Rightarrow>
     (case list_item (case recent_filings ''primaryDocument'' of None \<Rightarrow> [[]] | Some docs \<Rightarrow> docs) i of
        Inl e \<Rightarrow> Inl e
      | Inr primary_doc \<Rightarrow> Inr (make_filing cik accession_number filing_date primary_doc))))))"

text \<open>The loop over \<^verbatim>\<open>enumerate(recent_filings['form'])\<close> with the list \<^verbatim>\<open>filings\<close> built so
  far; the test against \<^verbatim>\<open>count\<close> comes after the append.\<close>

fun scan_filings ::
  "string \<Rightarrow> recent \<Rightarrow> string \<Rightarrow> int \<Rightarrow> (nat \<times> string) list \<Rightarrow> filing list
     \<Rightarrow> py_error + filing list" where
  "scan_filings cik recent_filings form_type count [] filings = Inr filings"
| "scan_filings cik recent_filings form_type count ((i, form) # rest) filings =
     (if form = form_type then
        (case read_filing cik recent_filings i of
           Inl e \<Rightarrow> Inl e
         | Inr f \<Rightarrow>
             if count \<le> int (length (filings @ [f])) then Inr (filings @ [f])
             else scan_filings cik recent_filings form_type count rest (filings @ [f]))
      else scan_filings cik recent_filings form_type count rest filings)"

text \<open>The decoded submissions resource: \<open>filings_recent\<close> is \<open>None\<close> without the key
  \<^verbatim>\<open>'filings'\<close>, and \<open>Some None\<close> without the key \<^verbatim>\<open>'recent'\<close> under it.\<close>

record submissions =
  filings_recent :: "recent option option"

definition list_recent_filings :: "string \<Rightarrow> recent \<Rightarrow> string \<Rightarrow> int \<Rightarrow> filing list" where
  "list_recent_filings cik recent_filings form_type count =
     (case recent_filings ''form'' of
        None \<Rightarrow> []
      | Some forms \<Rightarrow>
          if recent_filings ''accessionNumber'' = None then []
          else (case scan_filings cik recent_filings form_type count (enumerate 0 forms) [] of
                  Inl e \<Rightarrow> []
                | Inr filings \<Rightarrow> filings))"

definition get_recent_filings ::
  "submissions response \<Rightarrow> string \<Rightarrow> string \<Rightarrow> int \<Rightarrow> filing list" where
  "get_recent_filings resp cik form_type count =
     (case resp of
        Raised \<Rightarrow> []
      | Response status_code body \<Rightarrow>
          if status_code \<noteq> 200 then []
          else (case body of
                  None \<Rightarrow> []
                | Some data \<Rightarrow>
                    (case filings_recent data of
                       None \<Rightarrow> []
                     | Some None \<Rightarrow> []
                     | Some (Some recent_filings) \<Rightarrow>
                         list_recent_filings cik recent_filings form_type count)))"

text \<open>The positions of an enumerated form array whose form is the requested one, in the
  order of the array.\<close>

definition matching_positions :: "(nat \<times> string) list \<Rightarrow> string \<Rightarrow> nat list" where
  "matching_positions entries form_type = map fst (filter (\<lambda>(i, form). form = form_type) entries)"


section \<open>TextFetcher: the normalization in \<^verbatim>\<open>get_filing_text\<close>\<close>

text \<open>\<^verbatim>\<open>s.splitlines()\<close>: the line boundaries of the ASCII range; \<^verbatim>\<open>\r\n\<close> is one boundary,
  and a boundary at the very end opens no further line.\<close>

definition is_linebreak :: "char \<Rightarrow> bool" where
  "is_linebreak c \<longleftrightarrow> c \<in> set [CHR 0x0A, CHR 0x0B, CHR 0x0C, CHR 0x0D, CHR 0x1C, CHR 0x1D, CHR 0x1E]"

fun splitlines :: "string \<Rightarrow> string list" where
  "splitlines [] = []"
| "splitlines (c # cs) =
     (if is_linebreak c then
        [] # (case cs of
                [] \<Rightarrow> []
              | d # ds \<Rightarrow> if c = CHR 0x0D \<and> d = CHR 0x0A then splitlines ds
                          else splitlines (d # ds))
      else (case splitlines cs of
              [] \<Rightarrow> [[c]]
            | line # lines \<Rightarrow> (c # line) # lines))"

text \<open>\<^verbatim>\<open>s.split("  ")\<close>: the pieces between the non-overlapping occurrences of two spaces,
  found from the left.\<close>

fun split_spaces :: "string \<Rightarrow> string list" where
  "split_spaces [] = [[]]"
| "split_spaces [a] = [[a]]"
| "split_spaces (a # b # cs) =
     (if a = CHR '' '' \<and> b = CHR '' '' then [] # split_spaces cs
      else (case split_spaces (b # cs) of
              [] \<Rightarrow> [[a]]
            | piece # pieces \<Rightarrow> (a # piece) # pieces))"

text \<open>\<^verbatim>\<open>sep.join(xs)\<close>\<close>

fun join :: "string \<Rightarrow> string list \<Rightarrow> string" where
  "join sep [] = []"
| "join sep [x] = x"
| "join sep (x # y # ys) = x @ sep @ join sep (y # ys)"

definition clean_text :: "string \<Rightarrow> string" where
  "clean_text text =
     (let lines = map strip (splitlines text);
          chunks = concat (map (\<lambda>line. map strip (split_spaces line)) lines)
      in join [CHR 0x0A] (filter (\<lambda>chunk. chunk \<noteq> []) chunks))"

text \<open>Two properties of a chunk that the verification of the normalization uses: it has
  no two adjacent spaces, and it neither starts nor ends with whitespace.\<close>

fun double_space_free :: "string \<Rightarrow> bool" where
  "double_space_free (a # b # cs) \<longleftrightarrow>
     \<not> (a = CHR '' '' \<and> b = CHR '' '') \<and> double_space_free (b # cs)"
| "double_space_free [a] \<longleftrightarrow> True"
| "double_space_free [] \<longleftrightarrow> True"

definition stripped :: "string \<Rightarrow> bool" where
  "stripped c \<longleftrightarrow> c = [] \<or> (\<not> isspace (hd c) \<and> \<not> isspace (last c))"




section \<open>PipelineOrchestrator: \<^verbatim>\<open>process_companies\<close>\<close>










section \<open>Facts about the text primitives\<close>

text \<open>\<^verbatim>\<open>find\<close> returns \<^verbatim>\<open>-1\<close> exactly when the substring is absent, and otherwise
  the first position at which it starts.\<close>

lemma length_lower [simp]: "length (lower s) = length s"
  by (simp add: lower_def)

lemma find_from_absent:
  "\<not> sublist sub s \<Longrightarrow> find_from sub s i = - 1"
proof (induction s arbitrary: i)
  case Nil
  then show ?case by simp
next
  case (Cons c cs)
  then show ?case by (simp add: sublist_Cons_right)
qed

lemma find_from_present:
  "sublist sub s \<Longrightarrow>
     \<exists>k. find_from sub s i = int (i + k) \<and> k \<le> length s \<and> prefix sub (drop k s)
        \<and> (\<forall>j<k. \<not> prefix sub (drop j s))"
proof (induction s arbitrary: i)
  case Nil
  then show ?case by simp
next
  case (Cons c cs)
  show ?case
  proof (cases "prefix sub (c # cs)")
    case True
    then have "find_from sub (c # cs) i = int (i + 0) \<and> 0 \<le> length (c # cs)
        \<and> prefix sub (drop 0 (c # cs)) \<and> (\<forall>j<0. \<not> prefix sub (drop j (c # cs)))"
      by simp
    then show ?thesis by blast
  next
    case False
    with Cons.prems have "sublist sub cs"
      by (simp add: sublist_Cons_right)
    from Cons.IH [OF this, of "Suc i"] obtain k where
      k: "find_from sub cs (Suc i) = int (Suc i + k)" "k \<le> length cs"
         "prefix sub (drop k cs)" "\<forall>j<k. \<not> prefix sub (drop j cs)"
      by blast
    have "\<forall>j<Suc k. \<not> prefix sub (drop j (c # cs))"
    proof (intro allI impI)
      fix j assume "j < Suc k"
      then show "\<not> prefix sub (drop j (c # cs))"
        using False k(4) by (cases j) auto
    qed
    with False k(1-3) have "find_from sub (c # cs) i = int (i + Suc k)
        \<and> Suc k \<le> length (c # cs) \<and> prefix sub (drop (Suc k) (c # cs))
        \<and> (\<forall>j<Suc k. \<not> prefix sub (drop j (c # cs)))"
      by simp
    then show ?thesis by blast
  qed
qed

lemma str_find_first:
  assumes "sublist sub s"
  obtains k where "str_find s sub = int k" "k \<le> length s" "prefix sub (drop k s)"
    "\<forall>j<k. \<not> prefix sub (drop j s)"
  using find_from_present [OF assms, of 0] unfolding str_find_def by auto

lemma py_slice_window:
  assumes "k \<le> length s"
  shows "py_slice s (max 0 (int k - 100)) (min (int (length s)) (int k + 200))
           = take (min (length s) (k + 200) - (k - 100)) (drop (k - 100) s)"
proof -
  have lo: "clamp_index (length s) (max 0 (int k - 100)) = k - 100"
    using assms by (auto simp: clamp_index_def max_def)
  have hi: "clamp_index (length s) (min (int (length s)) (int k + 200))
              = min (length s) (k + 200)"
    by (auto simp: clamp_index_def min_def)
  show ?thesis
    by (simp only: py_slice_def Let_def lo hi)
qed


section \<open>The keyword scan\<close>

text \<open>The scan returns the window of the first keyword of the list that occurs in the
  lower-cased text, and the triple of failure when none occurs.\<close>

lemma scan_keywords_first:
  assumes "i < length ks" "sublist (ks ! i) (lower text)"
    and "\<forall>k<i. \<not> sublist (ks ! k) (lower text)"
  shows "scan_keywords ks text =
           (True,
            py_slice text (max 0 (str_find (lower text) (ks ! i) - 100))
              (min (int (length text)) (str_find (lower text) (ks ! i) + 200)),
            ks ! i)"
  using assms
proof (induction ks arbitrary: i)
  case Nil
  then show ?case by simp
next
  case (Cons a ks)
  show ?case
  proof (cases i)
    case 0
    with Cons.prems show ?thesis by (simp add: Let_def)
  next
    case (Suc n)
    with Cons.prems have "\<not> sublist a (lower text)" by auto
    moreover have "scan_keywords ks text =
           (True,
            py_slice text (max 0 (str_find (lower text) (ks ! n) - 100))
              (min (int (length text)) (str_find (lower text) (ks ! n) + 200)),
            ks ! n)"
      using Cons.prems Suc by (intro Cons.IH) auto
    ultimately show ?thesis using Suc by (simp add: Let_def)
  qed
qed

lemma scan_keywords_none:
  "(\<forall>k \<in> set ks. \<not> sublist k (lower text)) \<Longrightarrow> scan_keywords ks text = (False, [], [])"
  by (induction ks) (simp_all add: Let_def)

lemma first_keyword_present:
  assumes "k \<in> set ks" "sublist k (lower text)"
  shows "\<exists>i<length ks. sublist (ks ! i) (lower text)
           \<and> (\<forall>m<i. \<not> sublist (ks ! m) (lower text))"
proof -
  let ?P = "\<lambda>i. i < length ks \<and> sublist (ks ! i) (lower text)"
  from assms obtain n where "?P n" by (auto simp: in_set_conv_nth)
  then have least: "?P (LEAST i. ?P i)" by (rule LeastI)
  moreover have "\<forall>m<(LEAST i. ?P i). \<not> sublist (ks ! m) (lower text)"
  proof (intro allI impI)
    fix m assume m: "m < (LEAST i. ?P i)"
    then have "\<not> ?P m" by (rule not_less_Least)
    moreover from m least have "m < length ks" by simp
    ultimately show "\<not> sublist (ks ! m) (lower text)" by simp
  qed
  ultimately show ?thesis by blast
qed



text \<open>
  Claim C5. When some configured keyword occurs in the lower-cased text, the function
  returns the matched keyword \<open>kw\<close> and the slice of the original text from
  \<open>max 0 (i - 100)\<close> to \<open>min (length text) (i + 200)\<close>, where \<open>i\<close> is the first position at
  which \<open>kw\<close> starts in the lower-cased text. For \<open>i \<le> 100\<close> the slice starts at the
  beginning of the text, and for \<open>length text \<le> i + 200\<close> it runs to the end of the text.
\<close>

theorem context_window_bounds:
  assumes "k \<in> set PRODUCT_KEYWORDS" and "sublist k (lower text)"
  shows "\<exists>ctx kw i. contains_product_info text = (True, ctx, kw)
           \<and> kw \<in> set PRODUCT_KEYWORDS
           \<and> i \<le> length text \<and> prefix kw (drop i (lower text))
           \<and> (\<forall>j<i. \<not> prefix kw (drop j (lower text)))
           \<and> ctx = py_slice text (max 0 (int i - 100)) (min (int (length text)) (int i + 200))
           \<and> ctx = take (min (length text) (i + 200) - (i - 100)) (drop (i - 100) text)
           \<and> (i \<le> 100 \<longrightarrow> ctx = take (min (length text) (i + 200)) text)
           \<and> (length text \<le> i + 200 \<longrightarrow> ctx = drop (i - 100) text)"
proof -
  from first_keyword_present [OF assms] obtain n where
    n: "n < length PRODUCT_KEYWORDS" "sublist (PRODUCT_KEYWORDS ! n) (lower text)"
       "\<forall>m<n. \<not> sublist (PRODUCT_KEYWORDS ! m) (lower text)"
    by blast
  define kw where "kw = PRODUCT_KEYWORDS ! n"
  from str_find_first [OF n(2)] obtain i where
    i: "str_find (lower text) kw = int i" "i \<le> length (lower text)"
       "prefix kw (drop i (lower text))" "\<forall>j<i. \<not> prefix kw (drop j (lower text))"
    unfolding kw_def by blast
  define ctx where
    "ctx = py_slice text (max 0 (int i - 100)) (min (int (length text)) (int i + 200))"
  have il: "i \<le> length text" using i(2) by simp
  have res: "contains_product_info text = (True, ctx, kw)"
    using scan_keywords_first [OF n] i(1)
    by (simp add: contains_product_info_def ctx_def kw_def)
  have win: "ctx = take (min (length text) (i + 200) - (i - 100)) (drop (i - 100) text)"
    unfolding ctx_def by (rule py_slice_window [OF il])
  have lo: "i \<le> 100 \<longrightarrow> ctx = take (min (length text) (i + 200)) text"
    using win by simp
  have hi: "length text \<le> i + 200 \<longrightarrow> ctx = drop (i - 100) text"
    using win by simp
  have "kw \<in> set PRODUCT_KEYWORDS" using n(1) by (simp add: kw_def)
  with res il i(3,4) ctx_def win lo hi show ?thesis by blast
qed

theorem context_window_bounds_witness:
  "''announce'' \<in> set PRODUCT_KEYWORDS \<and> sublist ''announce'' (lower ''We Announce the Thing'')
   \<and> (\<exists>ctx kw i. contains_product_info ''We Announce the Thing'' = (True, ctx, kw)
         \<and> i \<le> length ''We Announce the Thing''
         \<and> prefix kw (drop i (lower ''We Announce the Thing''))
         \<and> ctx = take (min (length ''We Announce the Thing'') (i + 200)) ''We Announce the Thing''
         \<and> ctx = drop (i - 100) ''We Announce the Thing'')"
proof -
  have a: "''announce'' \<in> set PRODUCT_KEYWORDS" by (simp add: PRODUCT_KEYWORDS_def)
  have b: "sublist ''announce'' (lower ''We Announce the Thing'')" by code_simp
  from context_window_bounds [OF a b] obtain ctx kw i where
    r: "contains_product_info ''We Announce the Thing'' = (True, ctx, kw)"
       "i \<le> length ''We Announce the Thing''"
       "prefix kw (drop i (lower ''We Announce the Thing''))"
       "i \<le> 100 \<longrightarrow> ctx = take (min (length ''We Announce the Thing'') (i + 200)) ''We Announce the Thing''"
       "length ''We Announce the Thing'' \<le> i + 200 \<longrightarrow> ctx = drop (i - 100) ''We Announce the Thing''"
    by blast
  from r(2) have "i \<le> 100" "length ''We Announce the Thing'' \<le> i + 200" by simp_all
  with r a b show ?thesis by blast
qed


section \<open>Identifiers of the ticker map\<close>

text \<open>The decimal numeral of a number below \<open>10 ^ k\<close> has at most \<open>k\<close> digits, and
  \<^verbatim>\<open>zfill\<close> fills such a numeral with zeros on the left.\<close>

lemma digit_char_is_digit: "d < 10 \<Longrightarrow> is_digit (digit_char d)"
proof -
  assume "d < 10"
  then have "d \<in> {0, 1, 2, 3, 4, 5, 6, 7, 8, 9}" by auto
  then show ?thesis
    by (auto simp: digit_char_def is_digit_def)
qed

lemma str_nat_digits: "\<forall>c \<in> set (str_nat n). is_digit c"
proof (induction n rule: str_nat.induct)
  case (1 n)
  show ?case
  proof (cases "n < 10")
    case True
    then show ?thesis by (subst str_nat.simps) (simp add: digit_char_is_digit)
  next
    case False
    with 1 show ?thesis by (subst str_nat.simps) (simp add: digit_char_is_digit)
  qed
qed

lemma str_nat_length: "0 < k \<Longrightarrow> n < 10 ^ k \<Longrightarrow> length (str_nat n) \<le> k"
proof (induction n arbitrary: k rule: str_nat.induct)
  case (1 n)
  show ?case
  proof (cases "n < 10")
    case True
    with "1.prems" show ?thesis by (subst str_nat.simps) simp
  next
    case False
    with "1.prems" obtain j where k: "k = Suc j" by (cases k) auto
    have "0 < j"
    proof (rule ccontr)
      assume "\<not> 0 < j"
      with k "1.prems" False show False by simp
    qed
    moreover from "1.prems" k have "n div 10 < 10 ^ j"
      by (simp add: less_mult_imp_div_less mult.commute)
    ultimately have "length (str_nat (n div 10)) \<le> j"
      using False by (intro "1.IH") auto
    with False k show ?thesis by (subst str_nat.simps) simp
  qed
qed

lemma str_nat_nonempty: "str_nat n \<noteq> []"
  by (subst str_nat.simps) simp

lemma zfill_digits:
  assumes "s \<noteq> []" "\<forall>c \<in> set s. is_digit c" "length s \<le> w"
  shows "zfill s w = replicate (w - length s) CHR ''0'' @ s"
proof (cases "w \<le> length s")
  case True
  with assms(3) show ?thesis by (simp add: zfill_def)
next
  case False
  from assms(1) obtain c cs where s: "s = c # cs" by (cases s) auto
  with assms(2) have "is_digit c" by simp
  then have "c \<noteq> CHR ''+''" "c \<noteq> CHR ''-''" by (auto simp: is_digit_def)
  with False s show ?thesis by (simp add: zfill_def)
qed

lemma zero_is_digit: "is_digit CHR ''0''"
  by (simp add: is_digit_def)

lemma padded_ok:
  assumes "0 \<le> n" "n < 10 ^ 10"
  shows "zfill (str_int n) 10 = replicate (10 - length (str_nat (nat n))) CHR ''0'' @ str_nat (nat n)
       \<and> length (zfill (str_int n) 10) = 10
       \<and> (\<forall>ch \<in> set (zfill (str_int n) 10). is_digit ch)"
proof -
  from assms have s: "str_int n = str_nat (nat n)" by (simp add: str_int_def)
  from assms have "nat n < 10 ^ 10" by (simp add: nat_less_iff)
  then have len: "length (str_nat (nat n)) \<le> 10" by (intro str_nat_length) auto
  have z: "zfill (str_nat (nat n)) 10
             = replicate (10 - length (str_nat (nat n))) CHR ''0'' @ str_nat (nat n)"
    using str_nat_nonempty str_nat_digits len by (rule zfill_digits)
  have "\<forall>ch \<in> set (replicate (10 - length (str_nat (nat n))) CHR ''0'' @ str_nat (nat n)). is_digit ch"
    using str_nat_digits [of "nat n"] zero_is_digit by auto
  with s z len show ?thesis by simp
qed

lemma convert_tickers_ok:
  assumes "\<forall>c \<in> set cs. \<exists>n t. cik_str c = Some n \<and> ticker c = Some t \<and> 0 \<le> n \<and> n < 10 ^ 10"
    and "set cs \<subseteq> set tickers_data"
    and "\<forall>t ident. d t = Some ident \<longrightarrow> ident_ok tickers_data t ident"
  shows "\<exists>d'. convert_tickers cs d = Inr d'
           \<and> (\<forall>t ident. d' t = Some ident \<longrightarrow> ident_ok tickers_data t ident)"
  using assms
proof (induction cs arbitrary: d)
  case Nil
  then show ?case by simp
next
  case (Cons c cs)
  from Cons.prems(1) obtain n t where
    c: "cik_str c = Some n" "ticker c = Some t" "0 \<le> n" "n < 10 ^ 10"
    by auto
  let ?d = "d(t \<mapsto> zfill (str_int n) 10)"
  have cin: "c \<in> set tickers_data" using Cons.prems(2) by simp
  have nn: "n = int (nat n)" using c(3) by simp
  have "ident_ok tickers_data t (zfill (str_int n) 10)"
    unfolding ident_ok_def using padded_ok [OF c(3,4)] cin c(1,2) nn
    by (metis)
  with Cons.prems(3) have inv: "\<forall>t' ident. ?d t' = Some ident \<longrightarrow> ident_ok tickers_data t' ident"
    by auto
  have "\<exists>d'. convert_tickers cs ?d = Inr d'
           \<and> (\<forall>t ident. d' t = Some ident \<longrightarrow> ident_ok tickers_data t ident)"
    using Cons.prems(1,2) inv by (intro Cons.IH) auto
  with c(1,2) show ?case by simp
qed

text \<open>
  Claim C6. A payload is well-formed when every entry has a ticker and a raw identifier
  \<open>n\<close> with \<open>0 \<le> n < 10 ^ 10\<close>, a number of at most ten digits. Every identifier of the
  mapping built from such a payload has length 10, consists of digits only, and is the
  decimal numeral of the raw identifier of an entry with that ticker, padded with zeros on
  the left.
\<close>

theorem identifiers_ten_digits:
  assumes "\<forall>c \<in> set tickers_data.
             \<exists>n t. cik_str c = Some n \<and> ticker c = Some t \<and> 0 \<le> n \<and> n < 10 ^ 10"
    and "get_company_tickers (Response 200 (Some tickers_data)) t = Some ident"
  shows "length ident = 10 \<and> (\<forall>ch \<in> set ident. is_digit ch)
       \<and> (\<exists>c \<in> set tickers_data. \<exists>n. ticker c = Some t \<and> cik_str c = Some (int n)
             \<and> ident = replicate (10 - length (str_nat n)) CHR ''0'' @ str_nat n)"
proof -
  have "\<exists>d'. convert_tickers tickers_data Map.empty = Inr d'
           \<and> (\<forall>t ident. d' t = Some ident \<longrightarrow> ident_ok tickers_data t ident)"
    using assms(1) by (intro convert_tickers_ok) auto
  then obtain d' where d': "convert_tickers tickers_data Map.empty = Inr d'"
    "\<forall>t ident. d' t = Some ident \<longrightarrow> ident_ok tickers_data t ident"
    by blast
  from d'(1) assms(2) have "d' t = Some ident" by (simp add: get_company_tickers_def)
  with d'(2) have "ident_ok tickers_data t ident" by blast
  then show ?thesis by (simp add: ident_ok_def)
qed


lemma str_nat_small: "n < 10 \<Longrightarrow> str_nat n = [digit_char n]"
  by (subst str_nat.simps) simp

lemma str_nat_large: "10 \<le> n \<Longrightarrow> str_nat n = str_nat (n div 10) @ [digit_char (n mod 10)]"
  by (subst str_nat.simps) simp


text \<open>The padding does not truncate: a raw identifier of eleven digits stays eleven
  characters long, which is why the bound on the raw identifier is part of the claim.\<close>

lemma long_identifier_not_truncated:
  "zfill (str_int 12345678901) 10 = ''12345678901''"
proof -
  have "str_int 12345678901 = ''12345678901''"
    by (simp add: str_int_def str_nat_small str_nat_large digit_char_def)
  then show ?thesis by (simp add: zfill_def)
qed

theorem identifiers_ten_digits_witness:
  "get_company_tickers (Response 200 (Some [\<lparr>cik_str = Some 320193, ticker = Some ''AAPL''\<rparr>])) ''AAPL''
     = Some ''0000320193''
   \<and> length ''0000320193'' = 10"
proof -
  let ?data = "[\<lparr>cik_str = Some 320193, ticker = Some ''AAPL''\<rparr>]"
  have a: "\<forall>c \<in> set ?data. \<exists>n t. cik_str c = Some n \<and> ticker c = Some t \<and> 0 \<le> n \<and> n < 10 ^ 10"
    by simp
  have b: "get_company_tickers (Response 200 (Some ?data)) ''AAPL'' = Some ''0000320193''"
  proof -
    have s: "str_int 320193 = ''320193''"
      by (simp add: str_int_def str_nat_small str_nat_large digit_char_def)
    have z: "zfill ''320193'' 10 = ''0000320193''" by code_simp
    show ?thesis by (simp add: get_company_tickers_def s z)
  qed
  from identifiers_ten_digits [OF a b] have "length ''0000320193'' = 10" by (rule conjunct1)
  with b show ?thesis by (rule conjI)
qed


section \<open>The companies of a run\<close>





section \<open>The filings of a company\<close>

text \<open>
  When the scan does not raise and \<open>count \<ge> 1\<close>, the records returned are those of the
  first \<open>count\<close> positions whose form equals the requested one, in the order of the array.
\<close>

lemma scan_filings_spec:
  assumes "scan_filings cik r ft count es filings = Inr fs"
    and "int (length filings) < count"
  shows "map Inr fs = map Inr filings
           @ map (read_filing cik r) (take (nat count - length filings) (matching_positions es ft))"
  using assms
proof (induction es arbitrary: filings)
  case Nil
  then show ?case by (simp add: matching_positions_def)
next
  case (Cons e es)
  obtain i form where e: "e = (i, form)" by (cases e)
  show ?case
  proof (cases "form = ft")
    case False
    with Cons.prems e have "scan_filings cik r ft count es filings = Inr fs" by simp
    from Cons.IH [OF this Cons.prems(2)] False e show ?thesis
      by (simp add: matching_positions_def)
  next
    case True
    with Cons.prems(1) e obtain f where f: "read_filing cik r i = Inr f"
      by (cases "read_filing cik r i") auto
    have mp: "matching_positions (e # es) ft = i # matching_positions es ft"
      using True e by (simp add: matching_positions_def)
    show ?thesis
    proof (cases "count \<le> int (length (filings @ [f]))")
      case True
      with Cons.prems e f \<open>form = ft\<close> have fs: "fs = filings @ [f]" by simp
      from True Cons.prems(2) have "nat count - length filings = Suc 0" by simp
      with fs f mp show ?thesis by simp
    next
      case False
      with Cons.prems e f \<open>form = ft\<close>
      have "scan_filings cik r ft count es (filings @ [f]) = Inr fs" by simp
      moreover from False have lt: "int (length (filings @ [f])) < count" by simp
      ultimately have "map Inr fs = map Inr (filings @ [f])
           @ map (read_filing cik r) (take (nat count - length (filings @ [f])) (matching_positions es ft))"
        by (rule Cons.IH)
      moreover from lt have "nat count - length filings = Suc (nat count - length (filings @ [f]))"
        by simp
      ultimately show ?thesis using f mp by simp
    qed
  qed
qed

lemma list_recent_filings_spec:
  assumes "1 \<le> count" and "recent_filings ''form'' = Some forms"
  shows "list_recent_filings cik recent_filings form_type count = []
       \<or> map Inr (list_recent_filings cik recent_filings form_type count)
           = map (read_filing cik recent_filings)
               (take (nat count) (matching_positions (enumerate 0 forms) form_type))"
proof (cases "recent_filings ''accessionNumber'' = None")
  case True
  with assms(2) show ?thesis by (simp add: list_recent_filings_def)
next
  case False
  show ?thesis
  proof (cases "scan_filings cik recent_filings form_type count (enumerate 0 forms) []")
    case (Inl e)
    with assms(2) False show ?thesis by (simp add: list_recent_filings_def)
  next
    case (Inr fs)
    from assms(1) have "int (length ([]::filing list)) < count" by simp
    from scan_filings_spec [OF Inr this] Inr assms(2) False show ?thesis
      by (simp add: list_recent_filings_def)
  qed
qed

lemma list_recent_filings_bound:
  assumes "1 \<le> count"
  shows "int (length (list_recent_filings cik recent_filings form_type count)) \<le> count"
proof (cases "recent_filings ''form''")
  case None
  with assms show ?thesis by (simp add: list_recent_filings_def)
next
  case (Some forms)
  from list_recent_filings_spec [where recent_filings = recent_filings and cik = cik
      and form_type = form_type, OF assms Some]
  show ?thesis
  proof
    assume "list_recent_filings cik recent_filings form_type count = []"
    with assms show ?thesis by simp
  next
    assume "map Inr (list_recent_filings cik recent_filings form_type count)
           = map (read_filing cik recent_filings)
               (take (nat count) (matching_positions (enumerate 0 forms) form_type))"
    then have "length (list_recent_filings cik recent_filings form_type count)
           = length (take (nat count) (matching_positions (enumerate 0 forms) form_type))"
      using map_eq_imp_length_eq by blast
    with assms show ?thesis by simp
  qed
qed

lemma read_filing_no_primary:
  assumes "recent_filings ''primaryDocument'' = None" and "0 < i"
  shows "\<exists>e. read_filing cik recent_filings i = Inl e"
  using assms
  by (auto simp: read_filing_def list_item_def split: sum.splits)

text \<open>With the other two arrays long enough, the failure is the index error of the
  one-element default list.\<close>

lemma read_filing_index_error:
  assumes "recent_filings ''primaryDocument'' = None" and "0 < i"
    and "recent_filings ''accessionNumber'' = Some accs" and "i < length accs"
    and "recent_filings ''filingDate'' = Some dates" and "i < length dates"
  shows "read_filing cik recent_filings i = Inl IndexError"
  using assms by (simp add: read_filing_def dict_item_def list_item_def)

lemma scan_filings_raises:
  assumes "\<forall>(i, form) \<in> set es. form = ft \<longrightarrow> (\<exists>e. read_filing cik r i = Inl e)"
    and "\<exists>i. (i, ft) \<in> set es"
  shows "\<exists>e. scan_filings cik r ft count es filings = Inl e"
  using assms
proof (induction es arbitrary: filings)
  case Nil
  then show ?case by simp
next
  case (Cons a es)
  obtain i form where a: "a = (i, form)" by (cases a)
  show ?case
  proof (cases "form = ft")
    case True
    with Cons.prems(1) a obtain e where "read_filing cik r i = Inl e" by auto
    with True a show ?thesis by simp
  next
    case False
    from Cons.prems(1) have
      "\<forall>(i, form) \<in> set es. form = ft \<longrightarrow> (\<exists>e. read_filing cik r i = Inl e)" by auto
    moreover from False Cons.prems(2) a have "\<exists>i. (i, ft) \<in> set es" by auto
    ultimately have "\<exists>e. scan_filings cik r ft count es filings = Inl e" by (rule Cons.IH)
    with False a show ?thesis by simp
  qed
qed

text \<open>
  Claim C10, as amended. Only the keys \<^verbatim>\<open>form\<close> and \<^verbatim>\<open>accessionNumber\<close> are checked before the
  scan. When the key \<^verbatim>\<open>primaryDocument\<close> is absent and some position \<open>i > 0\<close> holds the requested
  form, the function returns the empty list, also when position 0 matched and its record
  was already collected, provided the scan gets past position 0: \<open>count\<close> is at least 2, or
  position 0 does not hold the requested form.
\<close>

theorem missing_primary_document:
  assumes "recent_filings ''form'' = Some forms"
    and "recent_filings ''primaryDocument'' = None"
    and "0 < i" and "i < length forms" and "forms ! i = form_type"
    and "2 \<le> count \<or> forms ! 0 \<noteq> form_type"
  shows "list_recent_filings cik recent_filings form_type count = []
       \<and> get_recent_filings (Response 200 (Some \<lparr>filings_recent = Some (Some recent_filings)\<rparr>))
            cik form_type count = []"
proof -
  from assms(3,4) obtain f0 rest where forms: "forms = f0 # rest" by (cases forms) auto
  have later: "\<forall>(j, form) \<in> set (enumerate 1 rest). form = form_type \<longrightarrow>
                 (\<exists>e. read_filing cik recent_filings j = Inl e)"
    using read_filing_no_primary [where recent_filings = recent_filings and cik = cik] assms(2)
    by (auto simp: in_set_enumerate_eq)
  from assms(3,4,5) forms have "(i, form_type) \<in> set (enumerate 1 rest)"
    by (cases i) (auto simp: in_set_enumerate_eq)
  then have ex: "\<exists>j. (j, form_type) \<in> set (enumerate 1 rest)" by blast
  have tail: "\<exists>e. scan_filings cik recent_filings form_type count (enumerate 1 rest) fs = Inl e" for fs
    using later ex by (rule scan_filings_raises)
  have "\<exists>e. scan_filings cik recent_filings form_type count (enumerate 0 forms) [] = Inl e"
  proof (cases "f0 = form_type")
    case False
    with tail [of "[]"] forms show ?thesis by simp
  next
    case True
    with assms(6) forms have c: "2 \<le> count" by simp
    show ?thesis
    proof (cases "read_filing cik recent_filings 0")
      case (Inl e)
      with True forms show ?thesis by simp
    next
      case (Inr f)
      with True forms c tail [of "[f]"] show ?thesis by simp
    qed
  qed
  then have "list_recent_filings cik recent_filings form_type count = []"
    using assms(1) by (auto simp: list_recent_filings_def)
  then show ?thesis by (simp add: get_recent_filings_def)
qed


theorem missing_primary_document_witness:
  "list_recent_filings ''0000320193''
     [''form'' \<mapsto> [''8-K'', ''8-K''],
      ''accessionNumber'' \<mapsto> [''0000320193-25-000001'', ''0000320193-25-000002''],
      ''filingDate'' \<mapsto> [''2025-01-03'', ''2025-01-02'']] ''8-K'' 5 = []"
proof -
  let ?r = "[''form'' \<mapsto> [''8-K'', ''8-K''],
      ''accessionNumber'' \<mapsto> [''0000320193-25-000001'', ''0000320193-25-000002''],
      ''filingDate'' \<mapsto> [''2025-01-03'', ''2025-01-02'']] :: recent"
  have a: "?r ''form'' = Some [''8-K'', ''8-K'']" by simp
  have b: "?r ''primaryDocument'' = None" by simp
  have c: "(0::nat) < 1" "1 < length [''8-K'', ''8-K'']" "[''8-K'', ''8-K''] ! 1 = ''8-K''" by simp_all
  have d: "(2::int) \<le> 5 \<or> [''8-K'', ''8-K''] ! 0 \<noteq> ''8-K''" by simp
  from missing_primary_document [where recent_filings = ?r, OF a b c d] show ?thesis
    by (rule conjunct1)
qed

text \<open>With \<open>count = 1\<close> and a match at position 0 the scan stops after the first record,
  before any position above 0 is read: the record with the empty document URL is returned.\<close>

theorem missing_primary_document_counterexample:
  "list_recent_filings ''0000320193''
     [''form'' \<mapsto> [''8-K'', ''8-K''],
      ''accessionNumber'' \<mapsto> [''0000320193-25-000001'', ''0000320193-25-000002''],
      ''filingDate'' \<mapsto> [''2025-01-03'', ''2025-01-02'']] ''8-K'' 1
   = [\<lparr>accessionNumber = ''0000320193-25-000001'', filingDate = ''2025-01-03'',
       indexUrl = ''https://www.sec.gov/Archives/edgar/data/0000320193/000032019325000001/0000320193-25-000001-index.htm'',
       docUrl = []\<rparr>]"
  by code_simp

text \<open>
  Claim C7. The test against \<open>count\<close> comes after the append, so for \<open>count \<le> 0\<close> the first
  matching filing is still returned: one record for \<open>count = 0\<close>. (For \<open>count \<ge> 1\<close> the
  lemmas \<open>list_recent_filings_bound\<close> and \<open>list_recent_filings_spec\<close> above give the
  bound and the order.)
\<close>

theorem filing_cap_at_zero:
  "length (get_recent_filings
     (Response 200 (Some \<lparr>filings_recent = Some (Some
        [''form'' \<mapsto> [''8-K''], ''accessionNumber'' \<mapsto> [''0000320193-25-000001''],
         ''filingDate'' \<mapsto> [''2025-01-03''], ''primaryDocument'' \<mapsto> [''a.htm'']])\<rparr>))
     ''0000320193'' ''8-K'' 0) = 1"
  by code_simp


section \<open>The normalization of the page text\<close>

subsection \<open>strip\<close>

lemma rstrip_decomp: "s = rstrip s @ rev (takeWhile isspace (rev s))"
proof -
  have "rev (takeWhile isspace (rev s) @ dropWhile isspace (rev s)) = s"
    by (simp only: takeWhile_dropWhile_id rev_rev_ident)
  then have "rev (dropWhile isspace (rev s)) @ rev (takeWhile isspace (rev s)) = s"
    by (simp only: rev_append)
  then show ?thesis by (simp only: rstrip_def)
qed

lemma lstrip_decomp: "s = takeWhile isspace s @ lstrip s"
  by (simp add: lstrip_def)

lemma strip_decomp: "\<exists>pre post. s = pre @ strip s @ post"
proof -
  have "s = takeWhile isspace s @ strip s @ rev (takeWhile isspace (rev (lstrip s)))"
    using lstrip_decomp [of s] rstrip_decomp [of "lstrip s"] by (simp add: strip_def)
  then show ?thesis by blast
qed

lemma set_strip: "set (strip s) \<subseteq> set s"
proof -
  obtain pre post where "s = pre @ strip s @ post" using strip_decomp by blast
  then have "set s = set pre \<union> set (strip s) \<union> set post" by (metis set_append sup_assoc)
  then show ?thesis by blast
qed

lemma rstrip_last: "rstrip s \<noteq> [] \<Longrightarrow> \<not> isspace (last (rstrip s))"
proof -
  assume "rstrip s \<noteq> []"
  then have ne: "dropWhile isspace (rev s) \<noteq> []" by (simp add: rstrip_def)
  then have "\<not> isspace (hd (dropWhile isspace (rev s)))" by (rule hd_dropWhile)
  then show ?thesis by (simp add: rstrip_def last_rev)
qed

lemma rstrip_hd: "rstrip s \<noteq> [] \<Longrightarrow> hd (rstrip s) = hd s"
  using rstrip_decomp [of s] by (metis hd_append)

lemma stripped_strip: "stripped (strip s)"
proof (cases "strip s = []")
  case True
  then show ?thesis by (simp add: stripped_def)
next
  case False
  then have ne: "rstrip (lstrip s) \<noteq> []" by (simp add: strip_def)
  then have l: "\<not> isspace (last (strip s))" unfolding strip_def by (rule rstrip_last)
  from ne have "lstrip s \<noteq> []" by (auto simp: rstrip_def)
  then have "\<not> isspace (hd (lstrip s))" unfolding lstrip_def by (rule hd_dropWhile)
  with rstrip_hd [OF ne] have "\<not> isspace (hd (strip s))" by (simp add: strip_def)
  with l show ?thesis by (simp add: stripped_def)
qed

lemma strip_stripped: "stripped c \<Longrightarrow> strip c = c"
proof (cases "c = []")
  case True
  then show ?thesis by (simp add: strip_def lstrip_def rstrip_def)
next
  case False
  assume "stripped c"
  with False have h: "\<not> isspace (hd c)" and l: "\<not> isspace (last c)" by (simp_all add: stripped_def)
  from False h have a: "lstrip c = c" by (simp add: lstrip_def dropWhile_eq_self_iff)
  from False l have "dropWhile isspace (rev c) = rev c"
    by (simp add: dropWhile_eq_self_iff hd_rev)
  then have "rstrip c = c" by (simp add: rstrip_def)
  with a show ?thesis by (simp add: strip_def)
qed

subsection \<open>double spaces\<close>

lemma dsf_append: "double_space_free (xs @ ys) \<Longrightarrow> double_space_free xs \<and> double_space_free ys"
proof (induction xs rule: double_space_free.induct)
  case (1 a b cs)
  then show ?case by simp
next
  case (2 a)
  then show ?case by (cases ys) simp_all
next
  case 3
  then show ?case by simp
qed

lemma dsf_strip: "double_space_free s \<Longrightarrow> double_space_free (strip s)"
proof -
  assume d: "double_space_free s"
  obtain pre post where s: "s = pre @ strip s @ post" using strip_decomp by blast
  with d have "double_space_free (pre @ strip s @ post)" by simp
  then have "double_space_free (strip s @ post)" using dsf_append by blast
  then show ?thesis using dsf_append by blast
qed

lemma split_spaces_nonempty: "split_spaces s \<noteq> []"
  by (induction s rule: split_spaces.induct) (auto split: list.splits)

lemma split_spaces_hd: "split_spaces s = p # ps \<Longrightarrow> p = [] \<or> hd p = hd s"
  by (induction s rule: split_spaces.induct) (auto split: list.splits if_splits)

lemma split_spaces_dsf: "\<forall>p \<in> set (split_spaces s). double_space_free p"
proof (induction s rule: split_spaces.induct)
  case 1
  then show ?case by simp
next
  case (2 a)
  then show ?case by simp
next
  case (3 a b cs)
  show ?case
  proof (cases "a = CHR '' '' \<and> b = CHR '' ''")
    case True
    with 3 show ?thesis by simp
  next
    case False
    obtain p ps where pp: "split_spaces (b # cs) = p # ps"
      using split_spaces_nonempty [of "b # cs"] by (cases "split_spaces (b # cs)") auto
    with 3 False have ih: "double_space_free p" "\<forall>q \<in> set ps. double_space_free q" by auto
    from split_spaces_hd [OF pp] have "p = [] \<or> hd p = b" by simp
    then have "double_space_free (a # p)"
    proof
      assume "p = []" then show ?thesis by simp
    next
      assume "hd p = b"
      show ?thesis
      proof (cases p)
        case Nil then show ?thesis by simp
      next
        case (Cons x xs)
        with \<open>hd p = b\<close> ih(1) False show ?thesis by auto
      qed
    qed
    with ih(2) pp False show ?thesis by auto
  qed
qed

lemma split_spaces_set: "\<forall>p \<in> set (split_spaces s). set p \<subseteq> set s"
proof (induction s rule: split_spaces.induct)
  case 1
  then show ?case by simp
next
  case (2 a)
  then show ?case by simp
next
  case (3 a b cs)
  show ?case
  proof (cases "a = CHR '' '' \<and> b = CHR '' ''")
    case True
    with 3 show ?thesis by auto
  next
    case False
    obtain p ps where pp: "split_spaces (b # cs) = p # ps"
      using split_spaces_nonempty [of "b # cs"] by (cases "split_spaces (b # cs)") auto
    with 3 False have "\<forall>q \<in> set (p # ps). set q \<subseteq> set (b # cs)" by auto
    with pp False show ?thesis by auto
  qed
qed

lemma split_spaces_dsf_id: "double_space_free c \<Longrightarrow> split_spaces c = [c]"
  by (induction c rule: split_spaces.induct) auto

subsection \<open>splitlines\<close>

lemma splitlines_crlf: "splitlines (CHR 0x0D # CHR 0x0A # ds) = [] # splitlines ds"
  by (subst splitlines.simps) (simp add: is_linebreak_def del: splitlines.simps)

lemma splitlines_break:
  assumes "is_linebreak c" and "\<not> (c = CHR 0x0D \<and> (\<exists>ds. cs = CHR 0x0A # ds))"
  shows "splitlines (c # cs) = [] # splitlines cs"
proof (cases cs)
  case Nil
  with assms(1) show ?thesis by simp
next
  case (Cons d ds)
  with assms show ?thesis
    by (subst splitlines.simps) (auto simp del: splitlines.simps)
qed

lemma splitlines_char:
  assumes "\<not> is_linebreak c"
  shows "splitlines (c # cs) =
           (case splitlines cs of [] \<Rightarrow> [[c]] | line # lines \<Rightarrow> (c # line) # lines)"
  using assms by (subst splitlines.simps) (simp del: splitlines.simps)

declare splitlines.simps(2) [simp del]

lemma splitlines_no_linebreak: "\<forall>l \<in> set (splitlines s). \<forall>c \<in> set l. \<not> is_linebreak c"
proof (induction s rule: splitlines.induct)
  case 1
  then show ?case by simp
next
  case (2 c cs)
  show ?case
  proof (cases "is_linebreak c")
    case True
    note lb = this
    show ?thesis
    proof (cases "c = CHR 0x0D \<and> (\<exists>ds. cs = CHR 0x0A # ds)")
      case True
      then obtain ds where cs: "c = CHR 0x0D" "cs = CHR 0x0A # ds" by blast
      from "2.IH"(1) [OF lb cs(2)] cs(1)
      have "\<forall>l \<in> set (splitlines ds). \<forall>c \<in> set l. \<not> is_linebreak c" by simp
      with cs show ?thesis by (simp add: splitlines_crlf)
    next
      case False
      have "\<forall>l \<in> set (splitlines cs). \<forall>c \<in> set l. \<not> is_linebreak c"
      proof (cases cs)
        case Nil
        then show ?thesis by simp
      next
        case (Cons d ds)
        with False have "\<not> (c = CHR 0x0D \<and> d = CHR 0x0A)" by simp
        from "2.IH"(2) [OF lb Cons this] Cons show ?thesis by simp
      qed
      with splitlines_break [OF lb False] show ?thesis by simp
    qed
  next
    case False
    from "2.IH"(3) [OF False]
    have ih: "\<forall>l \<in> set (splitlines cs). \<forall>c \<in> set l. \<not> is_linebreak c" .
    show ?thesis
    proof (cases "splitlines cs")
      case Nil
      with False show ?thesis by (simp add: splitlines_char)
    next
      case (Cons line lines)
      with False ih show ?thesis by (simp add: splitlines_char)
    qed
  qed
qed

lemma splitlines_line_then_newline:
  "\<forall>x \<in> set c. \<not> is_linebreak x \<Longrightarrow> splitlines (c @ CHR 0x0A # r) = c # splitlines r"
proof (induction c)
  case Nil
  have "is_linebreak CHR 0x0A" by (simp add: is_linebreak_def)
  then show ?case by (simp add: splitlines_break)
next
  case (Cons x c)
  then show ?case by (simp add: splitlines_char)
qed

lemma splitlines_single:
  "c \<noteq> [] \<Longrightarrow> \<forall>x \<in> set c. \<not> is_linebreak x \<Longrightarrow> splitlines c = [c]"
proof (induction c)
  case Nil
  then show ?case by simp
next
  case (Cons x c)
  then show ?case by (cases "c = []") (auto simp: splitlines_char)
qed

lemma splitlines_join:
  "\<forall>c \<in> set cs. c \<noteq> [] \<and> (\<forall>x \<in> set c. \<not> is_linebreak x) \<Longrightarrow>
     splitlines (join [CHR 0x0A] cs) = cs"
proof (induction cs)
  case Nil
  then show ?case by simp
next
  case (Cons x xs)
  show ?case
  proof (cases xs)
    case Nil
    with Cons.prems show ?thesis by (simp add: splitlines_single)
  next
    case (Cons y ys)
    with Cons.prems Cons.IH have "splitlines (join [CHR 0x0A] (y # ys)) = y # ys" by simp
    moreover from Cons.prems have "\<forall>c \<in> set x. \<not> is_linebreak c" by simp
    ultimately show ?thesis
      using Cons by (simp add: splitlines_line_then_newline)
  qed
qed

subsection \<open>idempotency\<close>

lemma chunks_good:
  assumes "c \<in> set (filter (\<lambda>chunk. chunk \<noteq> [])
             (concat (map (\<lambda>line. map strip (split_spaces line)) (map strip (splitlines t)))))"
  shows "c \<noteq> [] \<and> (\<forall>x \<in> set c. \<not> is_linebreak x) \<and> stripped c \<and> double_space_free c"
proof -
  from assms obtain l p where l: "l \<in> set (splitlines t)"
    and p: "p \<in> set (split_spaces (strip l))" and c: "c = strip p" and ne: "c \<noteq> []"
    by auto
  have "set c \<subseteq> set p" unfolding c by (rule set_strip)
  also have "set p \<subseteq> set (strip l)" using split_spaces_set p by blast
  also have "set (strip l) \<subseteq> set l" by (rule set_strip)
  finally have "set c \<subseteq> set l" .
  with splitlines_no_linebreak l have nolb: "\<forall>x \<in> set c. \<not> is_linebreak x" by blast
  have st: "stripped c" unfolding c by (rule stripped_strip)
  from split_spaces_dsf p have "double_space_free p" by blast
  then have "double_space_free c" unfolding c by (rule dsf_strip)
  with ne nolb st show ?thesis by simp
qed

lemma clean_text_fixed:
  assumes "\<forall>c \<in> set cs. c \<noteq> [] \<and> (\<forall>x \<in> set c. \<not> is_linebreak x) \<and> stripped c
             \<and> double_space_free c"
  shows "clean_text (join [CHR 0x0A] cs) = join [CHR 0x0A] cs"
proof -
  have lines: "splitlines (join [CHR 0x0A] cs) = cs"
    using assms by (intro splitlines_join) simp
  have strips: "map strip cs = cs"
    using assms by (intro map_idI) (simp add: strip_stripped)
  have "map (\<lambda>line. map strip (split_spaces line)) cs = map (\<lambda>c. [c]) cs"
    using assms by (intro map_cong) (simp_all add: split_spaces_dsf_id strip_stripped)
  then have "concat (map (\<lambda>line. map strip (split_spaces line)) cs) = concat (map (\<lambda>c. [c]) cs)"
    by (rule arg_cong)
  also have "\<dots> = cs" by (induction cs) simp_all
  finally have chunks: "concat (map (\<lambda>line. map strip (split_spaces line)) cs) = cs" .
  have keep: "filter (\<lambda>chunk. chunk \<noteq> []) cs = cs"
    using assms by (intro filter_True) simp
  show ?thesis
    by (simp add: clean_text_def Let_def lines strips chunks keep)
qed

text \<open>
  Claim C8. The normalization of \<^verbatim>\<open>get_filing_text\<close> (split into lines, strip each line,
  split each line at two spaces, strip each piece, drop the empty pieces, join with
  newlines) is idempotent: applied to its own output it returns that output, for every
  input text.
\<close>

theorem normalization_idempotent: "clean_text (clean_text text) = clean_text text"
proof -
  let ?cs = "filter (\<lambda>chunk. chunk \<noteq> [])
               (concat (map (\<lambda>line. map strip (split_spaces line)) (map strip (splitlines text))))"
  have "clean_text text = join [CHR 0x0A] ?cs" by (simp add: clean_text_def Let_def)
  moreover have "clean_text (join [CHR 0x0A] ?cs) = join [CHR 0x0A] ?cs"
    using chunks_good by (intro clean_text_fixed) blast
  ultimately show ?thesis by simp
qed


section \<open>The backtracking matcher\<close>

text \<open>
  Every way of a quantified atom consumes a prefix of the subject made of characters of
  the atom, the longest prefix first for a greedy quantifier. A way of a sequence is a way
  of its left part followed by a way of its right part on the rest. \<^verbatim>\<open>search\<close> reports the
  first way at the first position that has one.
\<close>

lemma concat_map_empty: "(\<forall>x \<in> set xs. f x = []) \<Longrightarrow> concat (map f xs) = []"
  by (induction xs) simp_all

lemma split_at_run_length:
  "split_at s (run_length ic a s) = (takeWhile (atom_match ic a) s, None, dropWhile (atom_match ic a) s)"
  by (simp add: split_at_def run_length_def takeWhile_eq_take [symmetric] dropWhile_eq_drop [symmetric])

lemma ways_Many_hd:
  "ways ic (Many a) s =
     (takeWhile (atom_match ic a) s, None, dropWhile (atom_match ic a) s)
       # map (split_at s) (rev [0..<run_length ic a s])"
  by (simp add: split_at_run_length)

lemma take_while_run: "k \<le> length (takeWhile P s) \<Longrightarrow> \<forall>x \<in> set (take k s). P x"
proof (induction s arbitrary: k)
  case Nil
  then show ?case by simp
next
  case (Cons y s)
  show ?case
  proof (cases k)
    case 0
    then show ?thesis by simp
  next
    case (Suc j)
    with Cons.prems have "P y" "j \<le> length (takeWhile P s)" by (auto split: if_splits)
    with Cons.IH [of j] Suc show ?thesis by simp
  qed
qed

lemma take_run:
  "k \<le> run_length ic a s \<Longrightarrow> \<forall>x \<in> set (take k s). atom_match ic a x"
  unfolding run_length_def by (rule take_while_run)

lemma ways_Many_mem:
  assumes "(c, g, s') \<in> set (ways ic (Many a) s)"
  shows "g = None \<and> s = c @ s' \<and> (\<forall>x \<in> set c. atom_match ic a x)"
proof -
  from assms obtain k where "k < Suc (run_length ic a s)" "(c, g, s') = split_at s k"
    by (auto simp del: upt_Suc)
  with take_run [of k ic a s] show ?thesis by (simp add: split_at_def)
qed

lemma ways_Many1_mem:
  assumes "(c, g, s') \<in> set (ways ic (Many1 a) s)"
  shows "g = None \<and> s = c @ s' \<and> c \<noteq> [] \<and> (\<forall>x \<in> set c. atom_match ic a x)"
proof -
  from assms obtain k where k: "Suc 0 \<le> k" "k < Suc (run_length ic a s)" "(c, g, s') = split_at s k"
    by (auto simp del: upt_Suc)
  from k(1,2) have "s \<noteq> []" by (auto simp: run_length_def)
  with k take_run [of k ic a s] show ?thesis by (auto simp: split_at_def)
qed

lemma ways_Atom_mem:
  assumes "(c, g, s') \<in> set (ways ic (Atom a) s)"
  shows "\<exists>x. c = [x] \<and> g = None \<and> s = x # s' \<and> atom_match ic a x"
  using assms by (cases s) (auto split: if_splits)

lemma ways_Seq_mem:
  assumes "w \<in> set (ways ic (Seq r1 r2) s)"
  shows "\<exists>c1 g1 s1 c2 g2 s2. (c1, g1, s1) \<in> set (ways ic r1 s)
           \<and> (c2, g2, s2) \<in> set (ways ic r2 s1)
           \<and> w = (c1 @ c2, (case g2 of None \<Rightarrow> g1 | Some g \<Rightarrow> Some g), s2)"
proof -
  from assms obtain c1 g1 s1 w2 where
    a: "(c1, g1, s1) \<in> set (ways ic r1 s)" "w2 \<in> set (ways ic r2 s1)" "w = after c1 g1 w2"
    by auto
  obtain c2 g2 s2 where w2: "w2 = (c2, g2, s2)" by (cases w2)
  with a have "(c1, g1, s1) \<in> set (ways ic r1 s) \<and> (c2, g2, s2) \<in> set (ways ic r2 s1)
           \<and> w = (c1 @ c2, (case g2 of None \<Rightarrow> g1 | Some g \<Rightarrow> Some g), s2)"
    by (simp add: after_def)
  then show ?thesis by blast
qed

lemma ways_Rep0_nonempty: "ways ic (Rep 0 n r) s \<noteq> []"
  by (cases n) simp_all

lemma ways_Many_nonempty: "ways ic (Many a) s \<noteq> []"
  by (simp add: ways_Many_hd)

lemma search_Some:
  assumes "search ic r s = Some w"
  shows "\<exists>i rest. i \<le> length s \<and> ways ic r (drop i s) = w # rest
           \<and> (\<forall>j<i. ways ic r (drop j s) = [])"
  using assms
proof (induction s)
  case Nil
  then obtain rest where "ways ic r [] = w # rest" by (auto split: list.splits)
  then show ?case by simp
next
  case (Cons x t)
  show ?case
  proof (cases "ways ic r (x # t)")
    case Nil
    with Cons.prems have "search ic r t = Some w" by simp
    from Cons.IH [OF this] obtain i rest where
      p: "i \<le> length t" "ways ic r (drop i t) = w # rest" "\<forall>j<i. ways ic r (drop j t) = []"
      by blast
    have "\<forall>j<Suc i. ways ic r (drop j (x # t)) = []"
    proof (intro allI impI)
      fix j assume "j < Suc i"
      then show "ways ic r (drop j (x # t)) = []"
        using Nil p(3) by (cases j) auto
    qed
    with p(1,2) have "Suc i \<le> length (x # t) \<and> ways ic r (drop (Suc i) (x # t)) = w # rest
        \<and> (\<forall>j<Suc i. ways ic r (drop j (x # t)) = [])" by simp
    then show ?thesis by (intro exI)
  next
    case (Cons w' rest)
    with Cons.prems have "w' = w" by simp
    with Cons have "0 \<le> length (x # t) \<and> ways ic r (drop 0 (x # t)) = w # rest
        \<and> (\<forall>j<0. ways ic r (drop j (x # t)) = [])" by simp
    then show ?thesis by (intro exI)
  qed
qed

lemma search_None:
  assumes "search ic r s = None"
  shows "\<forall>i \<le> length s. ways ic r (drop i s) = []"
  using assms
proof (induction s)
  case Nil
  then show ?case by (auto split: list.splits)
next
  case (Cons x t)
  then have a: "ways ic r (x # t) = []" and b: "search ic r t = None"
    by (auto split: list.splits)
  show ?case
  proof (intro allI impI)
    fix i assume "i \<le> length (x # t)"
    then show "ways ic r (drop i (x # t)) = []"
      using a Cons.IH [OF b] by (cases i) auto
  qed
qed


section \<open>The second pattern\<close>

text \<open>
  Every way of the second pattern is a capitalized word followed by at most five further
  capitalized words, each after a non-empty run of whitespace. The first way takes every
  word whole up to its end, since each quantifier in it is greedy.
\<close>

declare ways.simps [simp del]

lemma am_upper [simp]: "in_items False upper_set x = is_upper x"
  by (simp add: in_items_def upper_set_def is_upper_def)

lemma am_alnum [simp]: "in_items False alnum_set x = is_alnum x"
  by (auto simp: in_items_def alnum_set_def is_alnum_def is_upper_def is_lower_def is_digit_def)

lemma upper_not_space: "is_upper x \<Longrightarrow> \<not> isspace x"
  by (auto simp: is_upper_def isspace_def)

lemma alnum_not_space: "is_alnum x \<Longrightarrow> \<not> isspace x"
  by (auto simp: is_alnum_def is_upper_def is_lower_def is_digit_def isspace_def)

lemma cap_words_pattern_unfold:
  "cap_words_pattern =
     Group (Seq (Atom (In upper_set)) (Seq (Many (In alnum_set))
       (Rep 0 5 (Seq (Many1 Space) (Seq (Atom (In upper_set)) (Many (In alnum_set)))))))"
  by (simp add: cap_words_pattern_def)

lemma word_mem:
  assumes "(c, g, s') \<in> set (ways False (Seq (Atom (In upper_set)) (Many (In alnum_set))) s)"
  shows "cap_word c \<and> g = None \<and> s = c @ s'"
proof -
  from ways_Seq_mem [OF assms] obtain c1 g1 s1 c2 g2 s2 where
    a: "(c1, g1, s1) \<in> set (ways False (Atom (In upper_set)) s)"
       "(c2, g2, s2) \<in> set (ways False (Many (In alnum_set)) s1)"
       "(c, g, s') = (c1 @ c2, (case g2 of None \<Rightarrow> g1 | Some g \<Rightarrow> Some g), s2)"
    by blast
  from ways_Atom_mem [OF a(1)] obtain x where
    x: "c1 = [x]" "g1 = None" "s = x # s1" "is_upper x" by auto
  from ways_Many_mem [OF a(2)] have
    m: "g2 = None" "s1 = c2 @ s2" "\<forall>y \<in> set c2. is_alnum y" by auto
  from a(3) x m show ?thesis by (simp add: cap_word_def list_all_iff)
qed

lemma tail_mem:
  assumes "(c, g, s') \<in> set (ways False
             (Seq (Many1 Space) (Seq (Atom (In upper_set)) (Many (In alnum_set)))) s)"
  shows "\<exists>sp v. c = sp @ v \<and> sp \<noteq> [] \<and> (\<forall>x \<in> set sp. isspace x) \<and> cap_word v
           \<and> g = None \<and> s = c @ s'"
proof -
  from ways_Seq_mem [OF assms] obtain c1 g1 s1 c2 g2 s2 where
    a: "(c1, g1, s1) \<in> set (ways False (Many1 Space) s)"
       "(c2, g2, s2) \<in> set (ways False (Seq (Atom (In upper_set)) (Many (In alnum_set))) s1)"
       "(c, g, s') = (c1 @ c2, (case g2 of None \<Rightarrow> g1 | Some g \<Rightarrow> Some g), s2)"
    by blast
  from ways_Many1_mem [OF a(1)] have
    m: "g1 = None" "s = c1 @ s1" "c1 \<noteq> []" "\<forall>x \<in> set c1. isspace x" by auto
  from word_mem [OF a(2)] have w: "cap_word c2" "g2 = None" "s1 = c2 @ s2" by auto
  from a(3) m w have "c = c1 @ c2 \<and> c1 \<noteq> [] \<and> (\<forall>x \<in> set c1. isspace x) \<and> cap_word c2
           \<and> g = None \<and> s = c @ s'" by simp
  then show ?thesis by blast
qed

lemma rep_mem:
  assumes "(c, g, s') \<in> set (ways False
             (Rep 0 n (Seq (Many1 Space) (Seq (Atom (In upper_set)) (Many (In alnum_set))))) s)"
  shows "\<exists>ws. c = concat (map (\<lambda>(sp, v). sp @ v) ws) \<and> length ws \<le> n
           \<and> (\<forall>(sp, v) \<in> set ws. sp \<noteq> [] \<and> (\<forall>x \<in> set sp. isspace x) \<and> cap_word v)
           \<and> g = None \<and> s = c @ s'"
  using assms
proof (induction n arbitrary: c g s' s)
  case 0
  then have "c = [] \<and> g = None \<and> s' = s" by (simp add: ways.simps(8))
  then have "c = concat (map (\<lambda>(sp, v). sp @ v) []) \<and> length ([]::(string \<times> string) list) \<le> 0
           \<and> (\<forall>(sp, v) \<in> set []. sp \<noteq> [] \<and> (\<forall>x \<in> set sp. isspace x) \<and> cap_word v)
           \<and> g = None \<and> s = c @ s'" by simp
  then show ?case by (intro exI)
next
  case (Suc n)
  let ?B = "Seq (Many1 Space) (Seq (Atom (In upper_set)) (Many (In alnum_set)))"
  from Suc.prems consider
    (stop) "(c, g, s') = ([], None, s)"
    | (more) c1 g1 s1 w2 where "(c1, g1, s1) \<in> set (ways False ?B s)"
        "w2 \<in> set (ways False (Rep 0 n ?B) s1)" "(c, g, s') = after c1 g1 w2"
    by (auto simp: ways.simps(9))
  then show ?case
  proof cases
    case stop
    then have "c = concat (map (\<lambda>(sp, v). sp @ v) []) \<and> length ([]::(string \<times> string) list) \<le> Suc n
           \<and> (\<forall>(sp, v) \<in> set []. sp \<noteq> [] \<and> (\<forall>x \<in> set sp. isspace x) \<and> cap_word v)
           \<and> g = None \<and> s = c @ s'" by simp
    then show ?thesis by (intro exI)
  next
    case more
    obtain c2 g2 s2 where w2: "w2 = (c2, g2, s2)" by (cases w2)
    from tail_mem [OF more(1)] obtain sp v where
      t: "c1 = sp @ v" "sp \<noteq> []" "\<forall>x \<in> set sp. isspace x" "cap_word v" "g1 = None" "s = c1 @ s1"
      by blast
    from more(2) w2 have "(c2, g2, s2) \<in> set (ways False (Rep 0 n ?B) s1)" by simp
    from Suc.IH [OF this] obtain ws where
      ws: "c2 = concat (map (\<lambda>(sp, v). sp @ v) ws)" "length ws \<le> n"
          "\<forall>(sp, v) \<in> set ws. sp \<noteq> [] \<and> (\<forall>x \<in> set sp. isspace x) \<and> cap_word v"
          "g2 = None" "s1 = c2 @ s2"
      by blast
    from more(3) w2 t ws have
      "c = concat (map (\<lambda>(sp, v). sp @ v) ((sp, v) # ws)) \<and> length ((sp, v) # ws) \<le> Suc n
           \<and> (\<forall>(sp, v) \<in> set ((sp, v) # ws). sp \<noteq> [] \<and> (\<forall>x \<in> set sp. isspace x) \<and> cap_word v)
           \<and> g = None \<and> s = c @ s'"
      by (simp add: after_def)
    then show ?thesis by (intro exI)
  qed
qed

lemma cap_words_mem:
  assumes "(c, g, s') \<in> set (ways False cap_words_pattern s)"
  shows "\<exists>w ws. c = w @ concat (map (\<lambda>(sp, v). sp @ v) ws) \<and> cap_word w \<and> length ws \<le> 5
           \<and> (\<forall>(sp, v) \<in> set ws. sp \<noteq> [] \<and> (\<forall>x \<in> set sp. isspace x) \<and> cap_word v)
           \<and> g = Some c \<and> s = c @ s'"
proof -
  let ?B = "Seq (Many1 Space) (Seq (Atom (In upper_set)) (Many (In alnum_set)))"
  from assms obtain g0 where
    b: "(c, g0, s') \<in> set (ways False (Seq (Atom (In upper_set))
                               (Seq (Many (In alnum_set)) (Rep 0 5 ?B))) s)"
    and g: "g = Some c"
    by (auto simp: cap_words_pattern_unfold ways.simps(10))
  from ways_Seq_mem [OF b] obtain c1 g1 s1 c2 g2 s2 where
    a: "(c1, g1, s1) \<in> set (ways False (Atom (In upper_set)) s)"
       "(c2, g2, s2) \<in> set (ways False (Seq (Many (In alnum_set)) (Rep 0 5 ?B)) s1)"
       "(c, g0, s') = (c1 @ c2, (case g2 of None \<Rightarrow> g1 | Some g \<Rightarrow> Some g), s2)"
    by blast
  from ways_Seq_mem [OF a(2)] obtain c3 g3 s3 c4 g4 s4 where
    d: "(c3, g3, s3) \<in> set (ways False (Many (In alnum_set)) s1)"
       "(c4, g4, s4) \<in> set (ways False (Rep 0 5 ?B) s3)"
       "(c2, g2, s2) = (c3 @ c4, (case g4 of None \<Rightarrow> g3 | Some g \<Rightarrow> Some g), s4)"
    by blast
  from ways_Atom_mem [OF a(1)] obtain x where
    x: "c1 = [x]" "g1 = None" "s = x # s1" "is_upper x" by auto
  from ways_Many_mem [OF d(1)] have
    m: "g3 = None" "s1 = c3 @ s3" "\<forall>y \<in> set c3. is_alnum y" by auto
  from rep_mem [OF d(2)] obtain ws where
    ws: "c4 = concat (map (\<lambda>(sp, v). sp @ v) ws)" "length ws \<le> 5"
        "\<forall>(sp, v) \<in> set ws. sp \<noteq> [] \<and> (\<forall>x \<in> set sp. isspace x) \<and> cap_word v"
        "g4 = None" "s3 = c4 @ s4"
    by blast
  have "cap_word (x # c3)" using x(4) m(3) by (simp add: cap_word_def list_all_iff)
  with a(3) d(3) x m ws g have
    "c = (x # c3) @ concat (map (\<lambda>(sp, v). sp @ v) ws) \<and> cap_word (x # c3) \<and> length ws \<le> 5
           \<and> (\<forall>(sp, v) \<in> set ws. sp \<noteq> [] \<and> (\<forall>x \<in> set sp. isspace x) \<and> cap_word v)
           \<and> g = Some c \<and> s = c @ s'"
    by simp
  then show ?thesis by (intro exI)
qed

lemma third_after [simp]: "snd (snd (after c g w)) = snd (snd w)"
  by (cases w) (simp add: after_def)

lemma am_alnum_fun [simp]: "atom_match False (In alnum_set) = is_alnum"
  by (rule ext) simp

lemma am_space_fun [simp]: "atom_match ic Space = isspace"
  by (rule ext) simp

lemma ways_word:
  "ways False (Seq (Atom (In upper_set)) (Many (In alnum_set))) s =
     (case s of
        [] \<Rightarrow> []
      | x # t \<Rightarrow> if is_upper x then map (after [x] None) (ways False (Many (In alnum_set)) t)
                 else [])"
  by (cases s) (simp_all add: ways.simps(2,3,4))

lemma ways_upper_then:
  "ways False (Seq (Atom (In upper_set)) r) s =
     (case s of
        [] \<Rightarrow> []
      | x # t \<Rightarrow> if is_upper x then map (after [x] None) (ways False r t) else [])"
  by (cases s) (simp_all add: ways.simps(2,3,4))

lemma run_space: "run_length ic Space s = length (takeWhile isspace s)"
  by (simp add: run_length_def)

lemma space_run_nth:
  assumes "i < length (takeWhile isspace s)"
  shows "drop i s = s ! i # drop (Suc i) s \<and> isspace (s ! i)"
proof -
  from assms have il: "i < length s"
    by (meson length_takeWhile_le less_le_trans)
  from assms have "takeWhile isspace s ! i \<in> set (takeWhile isspace s)" by (rule nth_mem)
  then have "isspace (takeWhile isspace s ! i)" by (auto dest: set_takeWhileD)
  with assms have "isspace (s ! i)" by (simp add: takeWhile_nth)
  with il show ?thesis by (simp add: Cons_nth_drop_Suc)
qed

lemma tail_ways:
  "ways False (Seq (Many1 Space) (Seq (Atom (In upper_set)) (Many (In alnum_set)))) s =
     (if takeWhile isspace s = [] then []
      else map (after (takeWhile isspace s) None)
             (ways False (Seq (Atom (In upper_set)) (Many (In alnum_set))) (dropWhile isspace s)))"
proof -
  let ?W = "Seq (Atom (In upper_set)) (Many (In alnum_set))"
  let ?F = "\<lambda>(c1, g1, s1). map (after c1 g1) (ways False ?W s1)"
  let ?k = "length (takeWhile isspace s)"
  have unfold: "ways False (Seq (Many1 Space) ?W) s
                  = concat (map ?F (map (split_at s) (rev [1..<Suc ?k])))"
    by (simp add: ways.simps(4,6) run_space)
  show ?thesis
  proof (cases ?k)
    case 0
    with unfold show ?thesis by simp
  next
    case (Suc j)
    have shorter: "\<forall>i \<in> set (rev [1..<Suc j]). ?F (split_at s i) = []"
    proof
      fix i assume "i \<in> set (rev [1..<Suc j])"
      with Suc have "i < ?k" by (simp del: upt_Suc)
      from space_run_nth [OF this] have "drop i s = s ! i # drop (Suc i) s" "\<not> is_upper (s ! i)"
        using upper_not_space by auto
      then show "?F (split_at s i) = []" by (simp add: split_at_def ways_word)
    qed
    have "concat (map ?F (map (split_at s) (rev [1..<Suc j]))) = []"
      using shorter by (simp add: concat_map_empty comp_def)
    moreover have "rev [1..<Suc (Suc j)] = Suc j # rev [1..<Suc j]" by simp
    moreover have "?F (split_at s (Suc j))
        = map (after (takeWhile isspace s) None) (ways False ?W (dropWhile isspace s))"
    proof -
      have "take (Suc j) s = takeWhile isspace s"
        using Suc takeWhile_eq_take [of isspace s] by simp
      moreover have "drop (Suc j) s = dropWhile isspace s"
        using Suc dropWhile_eq_drop [of isspace s] by simp
      ultimately show ?thesis by (simp add: split_at_def)
    qed
    ultimately have "ways False (Seq (Many1 Space) ?W) s
        = map (after (takeWhile isspace s) None) (ways False ?W (dropWhile isspace s))"
      using unfold Suc by simp
    moreover from Suc have "takeWhile isspace s \<noteq> []" by auto
    ultimately show ?thesis by simp
  qed
qed

lemma word_boundary:
  assumes "ways False (Seq (Atom (In upper_set)) (Many (In alnum_set))) s = w # rest"
  shows "snd (snd w) = [] \<or> \<not> is_alnum (hd (snd (snd w)))"
proof -
  from assms obtain x t where s: "s = x # t" "is_upper x"
    by (cases s) (auto simp: ways_word split: if_splits)
  with assms have "w = after [x] None (takeWhile is_alnum t, None, dropWhile is_alnum t)"
    by (simp add: ways_word ways_Many_hd)
  then have "snd (snd w) = dropWhile is_alnum t" by simp
  then show ?thesis using hd_dropWhile [of is_alnum t] by auto
qed

lemma tail_boundary:
  assumes "ways False (Seq (Many1 Space) (Seq (Atom (In upper_set)) (Many (In alnum_set)))) s
             = w # rest"
  shows "snd (snd w) = [] \<or> \<not> is_alnum (hd (snd (snd w)))"
proof -
  let ?W = "Seq (Atom (In upper_set)) (Many (In alnum_set))"
  from assms have m: "map (after (takeWhile isspace s) None) (ways False ?W (dropWhile isspace s))
                     = w # rest"
    by (simp add: tail_ways split: if_splits)
  then obtain w0 rest0 where w0: "ways False ?W (dropWhile isspace s) = w0 # rest0"
    "w = after (takeWhile isspace s) None w0"
    by (cases "ways False ?W (dropWhile isspace s)") auto
  from word_boundary [OF w0(1)] w0(2) show ?thesis by simp
qed

lemma rep_boundary:
  assumes "s = [] \<or> \<not> is_alnum (hd s)"
    and "ways False (Rep 0 n (Seq (Many1 Space) (Seq (Atom (In upper_set)) (Many (In alnum_set))))) s
           = w # rest"
  shows "snd (snd w) = [] \<or> \<not> is_alnum (hd (snd (snd w)))"
  using assms
proof (induction n arbitrary: s w rest)
  case 0
  then show ?case by (auto simp: ways.simps(8))
next
  case (Suc n)
  let ?B = "Seq (Many1 Space) (Seq (Atom (In upper_set)) (Many (In alnum_set)))"
  show ?case
  proof (cases "ways False ?B s")
    case Nil
    with Suc.prems have "w = ([], None, s)" by (simp add: ways.simps(9))
    with Suc.prems(1) show ?thesis by simp
  next
    case (Cons b bs)
    obtain c1 g1 s1 where b: "b = (c1, g1, s1)" by (cases b)
    from tail_boundary [OF Cons] b have b1: "s1 = [] \<or> \<not> is_alnum (hd s1)" by simp
    obtain w1 rest1 where w1: "ways False (Rep 0 n ?B) s1 = w1 # rest1"
      using ways_Rep0_nonempty [of False n ?B s1] by (cases "ways False (Rep 0 n ?B) s1") auto
    from Suc.prems(2) Cons b w1 have "w = after c1 g1 w1" by (simp add: ways.simps(9))
    with Suc.IH [OF b1 w1] show ?thesis by simp
  qed
qed

lemma run_then_rep:
  "\<exists>w1 rest1 rest. ways False (Rep 0 n r) (dropWhile is_alnum t) = w1 # rest1
     \<and> ways False (Seq (Many (In alnum_set)) (Rep 0 n r)) t
         = after (takeWhile is_alnum t) None w1 # rest"
proof -
  obtain w1 rest1 where w1: "ways False (Rep 0 n r) (dropWhile is_alnum t) = w1 # rest1"
    using ways_Rep0_nonempty [of False n r "dropWhile is_alnum t"]
    by (cases "ways False (Rep 0 n r) (dropWhile is_alnum t)") auto
  then have "\<exists>rest. ways False (Seq (Many (In alnum_set)) (Rep 0 n r)) t
         = after (takeWhile is_alnum t) None w1 # rest"
    by (simp add: ways.simps(4) ways_Many_hd)
  with w1 show ?thesis by blast
qed

lemma cap_words_ways:
  "ways False cap_words_pattern s = [] \<longleftrightarrow> (case s of [] \<Rightarrow> True | x # t \<Rightarrow> \<not> is_upper x)"
proof (cases s)
  case Nil
  then show ?thesis by (simp add: cap_words_pattern_unfold ways.simps(10) ways_upper_then)
next
  case (Cons x t)
  let ?B = "Seq (Many1 Space) (Seq (Atom (In upper_set)) (Many (In alnum_set)))"
  from run_then_rep [of 5 ?B t] have "ways False (Seq (Many (In alnum_set)) (Rep 0 5 ?B)) t \<noteq> []"
    by auto
  with Cons show ?thesis
    by (simp add: cap_words_pattern_unfold ways.simps(10) ways_upper_then)
qed

lemma cap_words_boundary:
  assumes "ways False cap_words_pattern s = w # rest"
  shows "snd (snd w) = [] \<or> \<not> is_alnum (hd (snd (snd w)))"
proof -
  let ?B = "Seq (Many1 Space) (Seq (Atom (In upper_set)) (Many (In alnum_set)))"
  from assms obtain x t where s: "s = x # t" "is_upper x"
    using cap_words_ways [of s] by (cases s) auto
  from run_then_rep [of 5 ?B t] obtain w1 rest1 rest2 where
    r: "ways False (Rep 0 5 ?B) (dropWhile is_alnum t) = w1 # rest1"
       "ways False (Seq (Many (In alnum_set)) (Rep 0 5 ?B)) t
          = after (takeWhile is_alnum t) None w1 # rest2"
    by blast
  have "dropWhile is_alnum t = [] \<or> \<not> is_alnum (hd (dropWhile is_alnum t))"
    using hd_dropWhile [of is_alnum t] by auto
  from rep_boundary [OF this r(1)] have b: "snd (snd w1) = [] \<or> \<not> is_alnum (hd (snd (snd w1)))" .
  from assms s r(2) have "snd (snd w) = snd (snd w1)"
    by (auto simp: cap_words_pattern_unfold ways.simps(10) ways_upper_then after_def split: prod.splits)
  with b show ?thesis by simp
qed

lemma cap_word_ends:
  assumes "cap_word v"
  shows "v \<noteq> [] \<and> \<not> isspace (hd v) \<and> \<not> isspace (last v)"
proof -
  from assms obtain x t where v: "v = x # t" "is_upper x" "\<forall>c \<in> set t. is_alnum c"
    by (cases v) (auto simp: cap_word_def list_all_iff)
  have "\<not> isspace (last (x # t))"
  proof (cases "t = []")
    case True
    with v(2) show ?thesis by (simp add: upper_not_space)
  next
    case False
    then have "last t \<in> set t" by simp
    with v(3) have "is_alnum (last t)" by blast
    with False show ?thesis by (simp add: alnum_not_space)
  qed
  with v show ?thesis by (simp add: upper_not_space)
qed

lemma spaced_words_last:
  assumes "ws \<noteq> []" and "\<forall>(sp, v) \<in> set ws. cap_word v"
  shows "concat (map (\<lambda>(sp, v). sp @ v) ws) \<noteq> []
       \<and> \<not> isspace (last (concat (map (\<lambda>(sp, v). sp @ v) ws)))"
  using assms
proof (induction ws rule: rev_induct)
  case Nil
  then show ?case by simp
next
  case (snoc p ws)
  obtain sp v where p: "p = (sp, v)" by (cases p)
  with snoc.prems(2) have "cap_word v" by simp
  from cap_word_ends [OF this] p show ?case by simp
qed

lemma cap_run_stripped:
  assumes "cap_word w" and "\<forall>(sp, v) \<in> set ws. cap_word v"
  shows "strip (w @ concat (map (\<lambda>(sp, v). sp @ v) ws)) = w @ concat (map (\<lambda>(sp, v). sp @ v) ws)"
proof -
  let ?z = "concat (map (\<lambda>(sp, v). sp @ v) ws)"
  from cap_word_ends [OF assms(1)] have w: "w \<noteq> []" "\<not> isspace (hd w)" "\<not> isspace (last w)"
    by simp_all
  have "\<not> isspace (last (w @ ?z))"
  proof (cases "ws = []")
    case True
    with w show ?thesis by simp
  next
    case False
    from spaced_words_last [OF False assms(2)] show ?thesis by simp
  qed
  with w have "stripped (w @ ?z)" by (simp add: stripped_def)
  then show ?thesis by (rule strip_stripped)
qed

lemma no_match_before:
  assumes "i \<le> length s" and "\<forall>j<i. ways False cap_words_pattern (drop j s) = []"
  shows "\<forall>c \<in> set (take i s). \<not> is_upper c"
proof
  fix c assume "c \<in> set (take i s)"
  then obtain j where j: "j < i" "j < length s" "c = s ! j"
    by (auto simp: in_set_conv_nth)
  with assms(2) have "ways False cap_words_pattern (drop j s) = []" by simp
  moreover from j(2) have "drop j s = s ! j # drop (Suc j) s" by (simp add: Cons_nth_drop_Suc)
  ultimately show "\<not> is_upper c" using j(3) by (simp add: cap_words_ways)
qed

lemma words_after_position:
  assumes "sublist keyword (lower context)"
  shows "\<exists>i. i + length keyword \<le> length context \<and> prefix keyword (drop i (lower context))
           \<and> (\<forall>j<i. \<not> prefix keyword (drop j (lower context)))
           \<and> words_after context keyword = strip (drop (i + length keyword) context)"
proof -
  from str_find_first [OF assms] obtain i where
    i: "str_find (lower context) keyword = int i" "i \<le> length (lower context)"
       "prefix keyword (drop i (lower context))" "\<forall>j<i. \<not> prefix keyword (drop j (lower context))"
    by blast
  from i(3) have "length keyword \<le> length (drop i (lower context))" by (rule prefix_length_le)
  with i(2) have le: "i + length keyword \<le> length context" by simp
  then have "words_after context keyword = strip (drop (i + length keyword) context)"
    using i(1) by (simp add: words_after_def py_slice_from_def clamp_index_def nat_add_distrib)
  with le i(3,4) show ?thesis by blast
qed

text \<open>
  What the second pattern returns when it is the one that decides. The name is a run of one
  to six capitalized words separated by whitespace; it is the leftmost such run in the text
  after the keyword (no upper-case letter stands before it there); and it ends where a
  token ends. Nothing says that it starts where a token starts.
\<close>

lemma cap_words_heuristic:
  assumes "quote_match context keyword = None"
    and "cap_words_match context keyword = Some m"
  shows "\<exists>pre w ws rest.
           extract_product_name context keyword = w @ concat (map (\<lambda>(sp, v). sp @ v) ws)
         \<and> words_after context keyword = pre @ extract_product_name context keyword @ rest
         \<and> (\<forall>c \<in> set pre. \<not> is_upper c)
         \<and> cap_word w \<and> length ws \<le> 5
         \<and> (\<forall>(sp, v) \<in> set ws. sp \<noteq> [] \<and> (\<forall>c \<in> set sp. isspace c) \<and> cap_word v)
         \<and> (rest = [] \<or> \<not> is_alnum (hd rest))"
proof -
  let ?wa = "words_after context keyword"
  from assms(2) have "search False cap_words_pattern ?wa = Some m"
    by (simp add: cap_words_match_def)
  from search_Some [OF this] obtain i rest0 where
    i: "i \<le> length ?wa" "ways False cap_words_pattern (drop i ?wa) = m # rest0"
       "\<forall>j<i. ways False cap_words_pattern (drop j ?wa) = []"
    by blast
  obtain c g s' where m: "m = (c, g, s')" by (cases m)
  with i(2) have "(c, g, s') \<in> set (ways False cap_words_pattern (drop i ?wa))" by simp
  from cap_words_mem [OF this] obtain w ws where
    c: "c = w @ concat (map (\<lambda>(sp, v). sp @ v) ws)" "cap_word w" "length ws \<le> 5"
       "\<forall>(sp, v) \<in> set ws. sp \<noteq> [] \<and> (\<forall>x \<in> set sp. isspace x) \<and> cap_word v"
       "g = Some c" "drop i ?wa = c @ s'"
    by blast
  from c(4) have caps: "\<forall>(sp, v) \<in> set ws. cap_word v" by auto
  have "strip c = c" unfolding c(1) using c(2) caps by (rule cap_run_stripped)
  with assms m c(5) have name: "extract_product_name context keyword = c"
    by (simp add: extract_product_name_def)
  have "?wa = take i ?wa @ drop i ?wa" by simp
  with c(6) have split: "?wa = take i ?wa @ c @ s'" by simp
  have before: "\<forall>x \<in> set (take i ?wa). \<not> is_upper x"
    using i(1,3) by (rule no_match_before)
  from cap_words_boundary [OF i(2)] m have bound: "s' = [] \<or> \<not> is_alnum (hd s')" by simp
  from name c(1) split before c(2,3,4) bound have
    "extract_product_name context keyword = w @ concat (map (\<lambda>(sp, v). sp @ v) ws)
         \<and> words_after context keyword = take i ?wa @ extract_product_name context keyword @ s'
         \<and> (\<forall>c \<in> set (take i ?wa). \<not> is_upper c)
         \<and> cap_word w \<and> length ws \<le> 5
         \<and> (\<forall>(sp, v) \<in> set ws. sp \<noteq> [] \<and> (\<forall>c \<in> set sp. isspace c) \<and> cap_word v)
         \<and> (s' = [] \<or> \<not> is_alnum (hd s'))"
    by simp
  then show ?thesis by (intro exI)
qed

text \<open>An instance: three capitalized words, preceded and followed by lower-case text.\<close>

lemma cap_words_example:
  "quote_match ''We launch the Big Red Thing today'' ''launch'' = None
   \<and> cap_words_match ''We launch the Big Red Thing today'' ''launch''
       = Some (''Big Red Thing'', Some ''Big Red Thing'', '' today'')
   \<and> extract_product_name ''We launch the Big Red Thing today'' ''launch'' = ''Big Red Thing''"
  by code_simp

text \<open>
  Claim C3. The pattern has no anchor at a word boundary, so the run can start inside a
  token. In \<^verbatim>\<open>announce the iPhone\<close> with keyword \<^verbatim>\<open>announce\<close> the first pattern finds nothing,
  the text after the keyword is \<^verbatim>\<open>the iPhone\<close>, and the second pattern returns \<^verbatim>\<open>Phone\<close>: the
  character before it, \<^verbatim>\<open>i\<close>, is alphanumeric, so \<^verbatim>\<open>Phone\<close> is a part of the token \<^verbatim>\<open>iPhone\<close>
  and not a whole token.
\<close>

theorem cap_words_fragment:
  "quote_match ''announce the iPhone'' ''announce'' = None
   \<and> words_after ''announce the iPhone'' ''announce'' = ''the i'' @ ''Phone''
   \<and> is_alnum (last ''the i'')
   \<and> cap_words_match ''announce the iPhone'' ''announce'' = Some (''Phone'', Some ''Phone'', [])
   \<and> extract_product_name ''announce the iPhone'' ''announce'' = ''Phone''"
  by code_simp


section \<open>Empty product names\<close>

text \<open>\<^verbatim>\<open>strip\<close> returns the empty string exactly on whitespace; the group of the third
  pattern starts with a letter, also when the pattern ignores case.\<close>

lemma strip_Nil_iff: "strip s = [] \<longleftrightarrow> (\<forall>x \<in> set s. isspace x)"
proof
  assume "strip s = []"
  then have d: "\<forall>x \<in> set (dropWhile isspace s). isspace x"
    by (simp add: strip_def rstrip_def lstrip_def)
  show "\<forall>x \<in> set s. isspace x"
  proof
    fix x assume "x \<in> set s"
    then have "x \<in> set (takeWhile isspace s @ dropWhile isspace s)" by simp
    then have "x \<in> set (takeWhile isspace s) \<or> x \<in> set (dropWhile isspace s)"
      by (simp only: set_append Un_iff)
    with d show "isspace x" by (auto dest: set_takeWhileD)
  qed
next
  assume "\<forall>x \<in> set s. isspace x"
  then show "strip s = []"
    by (auto simp: strip_def rstrip_def lstrip_def dest: set_dropWhileD)
qed

lemma lower_not_space: "is_lower x \<Longrightarrow> \<not> isspace x"
  by (auto simp: is_lower_def isspace_def)

lemma ic_upper_not_space:
  assumes "in_items True upper_set x"
  shows "\<not> isspace x"
proof -
  from assms have "is_upper x \<or> is_upper (lower_char x) \<or> is_upper (upper_char x)"
    by (simp add: in_items_def upper_set_def is_upper_def)
  then show ?thesis
  proof (elim disjE)
    assume "is_upper x"
    then show ?thesis by (rule upper_not_space)
  next
    assume "is_upper (lower_char x)"
    then have "is_upper x" by (cases "is_upper x") (simp_all add: lower_char_def)
    then show ?thesis by (rule upper_not_space)
  next
    assume u: "is_upper (upper_char x)"
    show ?thesis
    proof (cases "is_lower x")
      case True
      then show ?thesis by (rule lower_not_space)
    next
      case False
      with u have "is_upper x" by (simp add: upper_char_def)
      then show ?thesis by (rule upper_not_space)
    qed
  qed
qed

lemma seq_capture:
  assumes "\<And>s c g s'. (c, g, s') \<in> set (ways ic r2 s) \<Longrightarrow> \<exists>x. g = Some x \<and> P x"
    and "(c, g, s') \<in> set (ways ic (Seq r1 r2) s)"
  shows "\<exists>x. g = Some x \<and> P x"
proof -
  from ways_Seq_mem [OF assms(2)] obtain c1 g1 s1 c2 g2 s2 where
    a: "(c2, g2, s2) \<in> set (ways ic r2 s1)"
       "(c, g, s') = (c1 @ c2, (case g2 of None \<Rightarrow> g1 | Some g \<Rightarrow> Some g), s2)"
    by blast
  from assms(1) [OF a(1)] obtain x where "g2 = Some x" "P x" by blast
  with a(2) show ?thesis by simp
qed

lemma group_atom_capture:
  assumes "(c, g, s') \<in> set (ways ic (Group (Seq (Atom a) r)) s)"
  shows "\<exists>x. g = Some x \<and> (\<exists>y t. x = y # t \<and> atom_match ic a y)"
proof -
  from assms obtain g0 where b: "(c, g0, s') \<in> set (ways ic (Seq (Atom a) r) s)" and g: "g = Some c"
    by (auto simp: ways.simps(10))
  from ways_Seq_mem [OF b] obtain c1 g1 s1 c2 g2 s2 where
    a: "(c1, g1, s1) \<in> set (ways ic (Atom a) s)" "(c, g0, s') = (c1 @ c2, (case g2 of None \<Rightarrow> g1 | Some g \<Rightarrow> Some g), s2)"
    by blast
  from ways_Atom_mem [OF a(1)] obtain y where "c1 = [y]" "atom_match ic a y" by blast
  with a(2) g show ?thesis by simp
qed

lemma the_pattern_capture:
  assumes "(c, g, s') \<in> set (ways True (the_pattern keyword) s)"
  shows "\<exists>x. g = Some x \<and> (\<exists>y t. x = y # t \<and> \<not> isspace y)"
proof -
  let ?G = "Group (Seq (Atom (In upper_set))
              (Seq (Many (In alnum_set)) (Rep 0 4 (Seq (Many1 Space) (Many1 (In alnum_set))))))"
  have G: "\<exists>x. g = Some x \<and> (\<exists>y t. x = y # t \<and> \<not> isspace y)"
    if "(c, g, s') \<in> set (ways True ?G s)" for c g s' s
  proof -
    from group_atom_capture [OF that] obtain y t where "g = Some (y # t)"
      "atom_match True (In upper_set) y" by blast
    then show ?thesis using ic_upper_not_space by simp
  qed
  have p: "the_pattern keyword
             = Seq (lits keyword) (Seq (Few (NotIn [Ch CHR ''.'']))
                 (Seq (lits ''the'') (Seq (Many1 Space) ?G)))"
    by (simp add: the_pattern_def)
  show ?thesis
    using assms unfolding p
    by (elim seq_capture [rotated]) (rule G)
qed

text \<open>
  The name returned is empty exactly when the first pattern matches and the quoted phrase
  consists of whitespace only. The second and the third pattern capture a text that starts
  with a letter, and the placeholder is not empty.
\<close>

lemma product_name_empty_iff:
  "extract_product_name context keyword = [] \<longleftrightarrow>
     (\<exists>m. quote_match context keyword = Some m \<and> (\<forall>x \<in> set (group1 m). isspace x))"
proof (cases "quote_match context keyword")
  case (Some m)
  then show ?thesis by (simp add: extract_product_name_def strip_Nil_iff)
next
  case None
  note q = this
  have "extract_product_name context keyword \<noteq> []"
  proof (cases "cap_words_match context keyword")
    case (Some m2)
    from cap_words_heuristic [OF q Some] obtain w ws where
      "extract_product_name context keyword = w @ concat (map (\<lambda>(sp, v). sp @ v) ws)" "cap_word w"
      by blast
    then show ?thesis using cap_word_ends by simp
  next
    case None
    note c = this
    show ?thesis
    proof (cases "the_match context keyword")
      case None
      with q c show ?thesis by (simp add: extract_product_name_def)
    next
      case (Some m3)
      then have "search True (the_pattern keyword) context = Some m3" by (simp add: the_match_def)
      from search_Some [OF this] obtain i rest where
        "ways True (the_pattern keyword) (drop i context) = m3 # rest" by blast
      then have "m3 \<in> set (ways True (the_pattern keyword) (drop i context))" by simp
      moreover obtain c3 g3 s3 where m3: "m3 = (c3, g3, s3)" by (cases m3)
      ultimately obtain y t where "g3 = Some (y # t)" "\<not> isspace y"
        using the_pattern_capture by blast
      with m3 have "strip (group1 m3) \<noteq> []" by (auto simp: strip_Nil_iff)
      with q c Some show ?thesis by (simp add: extract_product_name_def)
    qed
  qed
  with q show ?thesis by simp
qed

text \<open>
  Claim C2. For the context \<^verbatim>\<open>announce " "\<close> and the keyword \<^verbatim>\<open>announce\<close> the first pattern
  matches with the quoted phrase \<^verbatim>\<open>" "\<close>, a single space, and the name returned is that
  phrase stripped: the empty string, not the placeholder.
\<close>

theorem whitespace_quote_gives_empty_name:
  "quote_match (''announce '' @ [dquote, CHR '' '', dquote]) ''announce''
     = Some (''announce '' @ [dquote, CHR '' '', dquote], Some '' '', [])
   \<and> extract_product_name (''announce '' @ [dquote, CHR '' '', dquote]) ''announce'' = []"
  by code_simp

text \<open>The fallback scenario of the same claim: none of the three patterns matches, and the
  placeholder is returned.\<close>

lemma fallback_scenario:
  "quote_match ''the company will announce this exciting update soon'' ''announce'' = None
   \<and> cap_words_match ''the company will announce this exciting update soon'' ''announce'' = None
   \<and> the_match ''the company will announce this exciting update soon'' ''announce'' = None
   \<and> extract_product_name ''the company will announce this exciting update soon'' ''announce''
       = ''New Product''"
  by code_simp


section \<open>The end-to-end scenario\<close>



end
